theory Spec2Isabelle
  imports Main "HOL-Library.Char_ord" "HOL-Library.List_Lexorder" "HOL-Library.Sublist"
begin

section \<open>Python text and byte strings\<close>

text \<open>
  A Python \<open>str\<close> is modelled as a list of code points, one \<^typ>\<open>char\<close> per code
  point; the model covers text whose code points are below 256.  The order on
  \<^typ>\<open>string\<close> is the lexicographic order by code point, which is how Python compares
  \<open>str\<close> values.  A \<open>bytes\<close> value is a list of bytes.
\<close>

type_synonym bytes = string

definition LF :: char where "LF = CHR 0x0A"
definition CR :: char where "CR = CHR 0x0D"
definition TAB :: char where "TAB = CHR 0x09"
definition FF :: char where "FF = CHR 0x0C"
definition NUL :: char where "NUL = CHR 0x00"

text \<open>\<open>str.isspace\<close> on one code point below 256.\<close>

definition isspace :: "char \<Rightarrow> bool" where
  "isspace c = (c \<in> set [CHR 0x09, CHR 0x0A, CHR 0x0B, CHR 0x0C, CHR 0x0D,
                           CHR 0x1C, CHR 0x1D, CHR 0x1E, CHR 0x1F, CHR 0x20,
                           CHR 0x85, CHR 0xA0])"

text \<open>The line boundaries of \<open>str.splitlines\<close> below 256.\<close>

definition linebreak :: "char \<Rightarrow> bool" where
  "linebreak c = (c \<in> set [CHR 0x0A, CHR 0x0B, CHR 0x0C, CHR 0x0D,
                             CHR 0x1C, CHR 0x1D, CHR 0x1E, CHR 0x85])"

text \<open>\<open>str.strip()\<close>, \<open>str.lstrip(chars)\<close>.\<close>

definition strip :: "string \<Rightarrow> string" where
  "strip s = rev (dropWhile isspace (rev (dropWhile isspace s)))"

definition lstrip_chars :: "string \<Rightarrow> string \<Rightarrow> string" where
  "lstrip_chars chars s = dropWhile (\<lambda>c. c \<in> set chars) s"

text \<open>
  \<open>str.splitlines()\<close>: a line ends at a line boundary, \<open>\r\n\<close> counts as one boundary,
  and a final boundary opens no further line.
\<close>

fun splitlines :: "string \<Rightarrow> string list" where
  "splitlines [] = []"
| "splitlines (c # cs) =
     (if c = CR \<and> cs \<noteq> [] \<and> hd cs = LF then [] # splitlines (tl cs)
      else if linebreak c then [] # splitlines cs
      else (case splitlines cs of [] \<Rightarrow> [[c]] | l # ls \<Rightarrow> (c # l) # ls))"

text \<open>\<open>str.split()\<close> without arguments: the maximal runs of non-whitespace.\<close>

function split_ws :: "string \<Rightarrow> string list" where
  "split_ws s =
     (let t = dropWhile isspace s
      in if t = [] then []
         else takeWhile (\<lambda>c. \<not> isspace c) t # split_ws (dropWhile (\<lambda>c. \<not> isspace c) t))"
  by pat_completeness auto
termination
proof (relation "measure length")
  fix s t :: string
  assume t: "t = dropWhile isspace s" and ne: "t \<noteq> []"
  have "length (dropWhile (\<lambda>c. \<not> isspace c) t) < length t"
  proof (cases t)
    case Nil
    with ne show ?thesis by simp
  next
    case (Cons a u)
    have "\<not> isspace a"
      by (metis hd_dropWhile list.sel(1) t ne Cons)
    then have "dropWhile (\<lambda>c. \<not> isspace c) t = dropWhile (\<lambda>c. \<not> isspace c) u"
      using Cons by simp
    then show ?thesis
      using Cons length_dropWhile_le [of "\<lambda>c. \<not> isspace c" u] by simp
  qed
  also have "length t \<le> length s"
    using t length_dropWhile_le [of isspace s] by simp
  finally show "(dropWhile (\<lambda>c. \<not> isspace c) t, s) \<in> measure length"
    by simp
qed simp

declare split_ws.simps [simp del]

text \<open>
  \<open>s.split(sep, 1)\<close> for a non-empty separator: the text before and after the leftmost
  occurrence of \<open>sep\<close>, or nothing when \<open>sep\<close> does not occur (\<open>sep in s\<close> is false).
\<close>

fun split_first :: "string \<Rightarrow> string \<Rightarrow> (string \<times> string) option" where
  "split_first sep [] = (if sep = [] then Some ([], []) else None)"
| "split_first sep (c # cs) =
     (if prefix sep (c # cs) then Some ([], drop (length sep) (c # cs))
      else map_option (\<lambda>(a, b). (c # a, b)) (split_first sep cs))"

definition contains :: "string \<Rightarrow> string \<Rightarrow> bool" where
  "contains sep s = (split_first sep s \<noteq> None)"

text \<open>\<open>str.lower()\<close> on code points below 256.\<close>

definition lower_char :: "char \<Rightarrow> char" where
  "lower_char c =
     (let n = (of_char c :: nat)
      in if (0x41 \<le> n \<and> n \<le> 0x5A) \<or> (0xC0 \<le> n \<and> n \<le> 0xDE \<and> n \<noteq> 0xD7)
         then char_of (n + 0x20) else c)"

definition lower :: "string \<Rightarrow> string" where
  "lower s = map lower_char s"

text \<open>\<open>s.split(c)\<close> for a one-character separator, and \<open>sep.join(xs)\<close>.\<close>

fun split_on :: "char \<Rightarrow> string \<Rightarrow> string list" where
  "split_on c [] = [[]]"
| "split_on c (x # xs) =
     (if x = c then [] # split_on c xs
      else (case split_on c xs of [] \<Rightarrow> [[x]] | w # ws \<Rightarrow> (x # w) # ws))"

fun join :: "string \<Rightarrow> string list \<Rightarrow> string" where
  "join sep [] = []"
| "join sep [x] = x"
| "join sep (x # y # ys) = x @ sep @ join sep (y # ys)"

text \<open>\<open>s.replace(old, new)\<close> for a one-character \<open>old\<close>.\<close>

definition replace_char :: "char \<Rightarrow> string \<Rightarrow> string \<Rightarrow> string" where
  "replace_char old new s = concat (map (\<lambda>c. if c = old then new else [c]) s)"

text \<open>\<open>s.rfind(c)\<close>: the index of the last occurrence of \<open>c\<close>, or \<open>-1\<close>.\<close>

fun rfind :: "char \<Rightarrow> string \<Rightarrow> int" where
  "rfind c [] = -1"
| "rfind c (x # xs) =
     (let r = rfind c xs
      in if r \<ge> 0 then r + 1 else if x = c then 0 else -1)"

section \<open>Exceptions\<close>

text \<open>
  An exception is kept by its class.  The message is kept as well when the code of this
  repository wrote it; the messages of the interpreter and of library code differ
  between versions of Python and are left out.
\<close>

datatype exception =
    KeyError
  | FileNotFoundError
  | IsADirectoryError
  | NotADirectoryError
  | FileExistsError
  | ValueError
  | TypeError
  | AttributeError
  | BadZipFile
  | RuntimeError
  | NotImplementedError
  | ZlibError
  | EOFError

datatype error =
    Raised exception
  | RaisedWith exception string


text \<open>Sequencing of steps that may raise.\<close>

definition and_then :: "error + 'a \<Rightarrow> ('a \<Rightarrow> error + 'b) \<Rightarrow> error + 'b" where
  "and_then m f = (case m of Inl e \<Rightarrow> Inl e | Inr x \<Rightarrow> f x)"

section \<open>Archives\<close>

text \<open>
  A ZIP archive is the list of its entries in the order they were written.  Each entry
  keeps what \<open>zipfile.ZipInfo\<close> records of it here: the name, the modification time, the
  compression method, and the (uncompressed) content.  An entry of an archive that was
  not written by \<open>zipfile\<close>, or was changed afterwards, may fail to read: \<open>zipfile\<close>
  raises \<open>BadZipFile\<close> for a bad header or checksum, \<open>RuntimeError\<close> for an encrypted
  entry (no password is given), \<open>NotImplementedError\<close> for a compression method that it
  does not support, and \<open>zlib.error\<close> or \<open>EOFError\<close> for compressed data that are
  damaged or cut short.
\<close>

datatype compression = ZIP_STORED | ZIP_DEFLATED

datatype read_failure = BadEntry | Encrypted | Unsupported | BadStream | Truncated

definition raised_by :: "read_failure \<Rightarrow> exception" where
  "raised_by f =
     (case f of
        BadEntry \<Rightarrow> BadZipFile
      | Encrypted \<Rightarrow> RuntimeError
      | Unsupported \<Rightarrow> NotImplementedError
      | BadStream \<Rightarrow> ZlibError
      | Truncated \<Rightarrow> EOFError)"

record zip_entry =
  filename :: string
  date_time :: "nat \<times> nat \<times> nat \<times> nat \<times> nat \<times> nat"
  compress_type :: compression
  content :: bytes
  failure :: "read_failure option"

type_synonym zipfile = "zip_entry list"

text \<open>
  \<open>zf.getinfo(name)\<close>: the entry called \<open>name\<close> (the last one written under that name),
  if there is one.  \<open>zf.read(name)\<close> raises \<open>KeyError\<close> when there is none, and reads
  the entry otherwise.
\<close>

definition getinfo :: "zipfile \<Rightarrow> string \<Rightarrow> zip_entry option" where
  "getinfo zf name = find (\<lambda>e. filename e = name) (rev zf)"

definition zf_read :: "zipfile \<Rightarrow> string \<Rightarrow> error + bytes" where
  "zf_read zf name =
     (case getinfo zf name of
        None \<Rightarrow> Inl (Raised KeyError)
      | Some e \<Rightarrow>
          (case failure e of
             Some f \<Rightarrow> Inl (Raised (raised_by f))
           | None \<Rightarrow> Inr (content e)))"

definition namelist :: "zipfile \<Rightarrow> string list" where
  "namelist zf = map filename zf"

section \<open>Library functions taken as parameters\<close>

datatype json =
    JString string
  | JBool bool
  | JArray "json list"
  | JObject "(string \<times> json) list"

text \<open>
  \<open>hashlib.sha256(data).hexdigest()\<close>, the UTF-8 codec (\<open>str.encode("utf-8")\<close> and
  \<open>bytes.decode("utf-8", errors="replace")\<close>), \<open>json.dumps(v, indent=2,
  ensure_ascii=False)\<close> and Python's \<open>repr\<close> of a list or dict are not code of this
  repository; the embedding takes them as parameters.  So it does the bytes that
  \<open>zipfile\<close> has put into the file of an archive once the given entries are written and
  the archive is not closed yet (their headers and compressed data).
\<close>

record library =
  sha256_hex :: "bytes \<Rightarrow> string"
  utf8_encode :: "string \<Rightarrow> bytes"
  utf8_decode :: "bytes \<Rightarrow> string"
  json_dumps :: "json \<Rightarrow> string"
  py_repr :: "json \<Rightarrow> string"
  zip_records :: "zip_entry list \<Rightarrow> bytes"

section \<open>The reader: \<open>aifm_reader.py\<close>\<close>


subsection \<open>\<open>parse_sha256sum\<close>\<close>

text \<open>
  The body of the \<open>for line in text.splitlines()\<close> loop: the entries appended for one
  line.
\<close>

definition parse_line :: "string \<Rightarrow> (string \<times> string) list" where
  "parse_line line0 =
     (let line = strip line0
      in if line = [] then []
         else if contains ''  '' line then
           (case split_first ''  '' line of
              Some (h, p) \<Rightarrow> [(strip h, strip p)]
            | None \<Rightarrow> [])
         else
           (let parts = split_ws line
            in if length parts \<ge> 2 then [(parts ! 0, parts ! 1)] else []))"

fun parse_loop :: "(string \<times> string) list \<Rightarrow> string list \<Rightarrow> (string \<times> string) list" where
  "parse_loop entries [] = entries"
| "parse_loop entries (line # rest) = parse_loop (entries @ parse_line line) rest"

definition parse_sha256sum :: "string \<Rightarrow> (string \<times> string) list" where
  "parse_sha256sum text = parse_loop [] (splitlines text)"

subsection \<open>\<open>verify_payload_checksums\<close>\<close>





section \<open>Paths and the file system\<close>

text \<open>
  A \<open>pathlib\<close> path (POSIX flavour) is its root (\<open>''/''\<close> when absolute, empty when
  relative) and the list of its components.
\<close>

datatype Path = Path (anchor: string) (tail: "string list")

definition path_name :: "Path \<Rightarrow> string" where
  "path_name p = (if tail p = [] then [] else last (tail p))"

definition path_str :: "Path \<Rightarrow> string" where
  "path_str p =
     (if tail p = [] then (if anchor p = [] then ''.'' else anchor p)
      else anchor p @ join ''/'' (tail p))"

text \<open>\<open>PurePath.suffix\<close>: the name from its last dot on, when that dot is neither the
  first nor the last character of the name.\<close>

definition path_suffix :: "Path \<Rightarrow> string" where
  "path_suffix p =
     (let name = path_name p; i = rfind (CHR ''.'') name
      in if 0 < i \<and> i < int (length name) - 1 then drop (nat i) name else [])"

text \<open>\<open>PurePath.with_suffix(suffix)\<close> for a suffix that starts with a dot, is not the
  dot alone and holds no separator (here always \<open>.aifm\<close>).  A path with an empty name
  is refused with a \<open>ValueError\<close>.\<close>

definition with_suffix :: "Path \<Rightarrow> string \<Rightarrow> error + Path" where
  "with_suffix p sfx =
     (let name = path_name p
      in if name = [] then Inl (Raised ValueError)
         else
           (let old_suffix = path_suffix p;
                name' = (if old_suffix = [] then name @ sfx
                         else take (length name - length old_suffix) name @ sfx)
            in Inr (Path (anchor p) (butlast (tail p) @ [name']))))"

text \<open>\<open>PurePath.relative_to(other)\<close>.\<close>

definition relative_to :: "Path \<Rightarrow> Path \<Rightarrow> error + Path" where
  "relative_to p other =
     (if anchor p = anchor other \<and> prefix (tail other) (tail p)
      then Inr (Path [] (drop (length (tail other)) (tail p)))
      else Inl (Raised ValueError))"

text \<open>Paths compare by their lists of components.\<close>

definition path_key :: "Path \<Rightarrow> string list" where
  "path_key p = anchor p # tail p"

text \<open>
  The file system is a finite table from paths to nodes; the first row for a path is
  the one that counts.  A file is reached by one path: the paths of the table are
  resolved, and links are outside the model.
\<close>

datatype node = RegularFile bytes | Directory

type_synonym filesystem = "(Path \<times> node) list"

definition path_exists :: "filesystem \<Rightarrow> Path \<Rightarrow> bool" where
  "path_exists fs p = (map_of fs p \<noteq> None)"

definition is_file :: "filesystem \<Rightarrow> Path \<Rightarrow> bool" where
  "is_file fs p = (case map_of fs p of Some (RegularFile b) \<Rightarrow> True | _ \<Rightarrow> False)"

definition is_dir :: "filesystem \<Rightarrow> Path \<Rightarrow> bool" where
  "is_dir fs p = (case map_of fs p of Some Directory \<Rightarrow> True | _ \<Rightarrow> False)"

text \<open>\<open>path.open("rb")\<close> followed by reading the whole file.\<close>

definition read_bytes :: "filesystem \<Rightarrow> Path \<Rightarrow> error + bytes" where
  "read_bytes fs p =
     (case map_of fs p of
        Some (RegularFile b) \<Rightarrow> Inr b
      | Some Directory \<Rightarrow> Inl (Raised IsADirectoryError)
      | None \<Rightarrow> Inl (Raised FileNotFoundError))"

text \<open>
  \<open>root.rglob("*")\<close>: every path strictly below \<open>root\<close> that is reached through
  directories only, each once.
\<close>

definition below :: "filesystem \<Rightarrow> Path \<Rightarrow> Path \<Rightarrow> bool" where
  "below fs root p =
     (anchor p = anchor root \<and> strict_prefix (tail root) (tail p) \<and>
      list_all (\<lambda>k. is_dir fs (Path (anchor p) (take k (tail p))))
        [length (tail root) ..< length (tail p)])"

definition rglob :: "filesystem \<Rightarrow> Path \<Rightarrow> Path list" where
  "rglob fs root = remdups (filter (below fs root) (map fst fs))"

section \<open>The converter: \<open>aifm_converter.py\<close>\<close>

definition AIFX_SPEC_VERSION :: string where "AIFX_SPEC_VERSION = ''0.1''"
definition AIFX_FORMAT_VERSION :: string where "AIFX_FORMAT_VERSION = ''1.0''"

text \<open>
  The clock: \<open>datetime.now(timezone.utc).replace(microsecond=0)\<close>.  Its \<open>isoformat()\<close>
  is \<open>YYYY-MM-DDTHH:MM:SS+00:00\<close>, and \<open>utc_now_iso\<close> replaces the offset by \<open>Z\<close>.
\<close>

record datetime =
  year :: nat
  month :: nat
  day :: nat
  hour :: nat
  minute :: nat
  second :: nat

definition digit :: "nat \<Rightarrow> char" where
  "digit n = char_of (48 + n mod 10)"

fun zero_pad :: "nat \<Rightarrow> nat \<Rightarrow> string" where
  "zero_pad 0 n = []"
| "zero_pad (Suc w) n = zero_pad w (n div 10) @ [digit n]"

definition utc_now_iso :: "datetime \<Rightarrow> string" where
  "utc_now_iso now =
     zero_pad 4 (year now) @ ''-'' @ zero_pad 2 (month now) @ ''-'' @ zero_pad 2 (day now) @
     ''T'' @ zero_pad 2 (hour now) @ '':'' @ zero_pad 2 (minute now) @ '':'' @
     zero_pad 2 (second now) @ ''Z''"

subsection \<open>\<open>sha256_file\<close>\<close>

text \<open>
  A hash object is the bytes fed to it so far: \<open>update\<close> appends, \<open>hexdigest\<close> is the
  digest of the whole.  The loop reads chunks of \<open>1024 * 1024\<close> bytes until \<open>read\<close>
  returns the empty chunk.
\<close>

function sha256_chunks :: "library \<Rightarrow> bytes \<Rightarrow> bytes \<Rightarrow> string" where
  "sha256_chunks lib h rest =
     (let chunk = take (1024 * 1024) rest
      in if chunk = [] then sha256_hex lib h
         else sha256_chunks lib (h @ chunk) (drop (1024 * 1024) rest))"
  by pat_completeness auto
termination
  by (relation "measure (\<lambda>(lib, h, rest). length rest)") auto

declare sha256_chunks.simps [simp del]

definition sha256_file :: "library \<Rightarrow> filesystem \<Rightarrow> Path \<Rightarrow> error + string" where
  "sha256_file lib fs p =
     (case read_bytes fs p of
        Inl e \<Rightarrow> Inl e
      | Inr b \<Rightarrow> Inr (sha256_chunks lib [] b))"

subsection \<open>\<open>normalize_zip_path\<close>\<close>

text \<open>\<open>posixpath.join(a, *p)\<close>; without a first argument the call is a \<open>TypeError\<close>.\<close>

fun join_loop :: "string \<Rightarrow> string list \<Rightarrow> string" where
  "join_loop path [] = path"
| "join_loop path (b # p) =
     join_loop
       (if prefix ''/'' b then b
        else if path = [] \<or> suffix ''/'' path then path @ b
        else path @ ''/'' @ b) p"

definition posixpath_join :: "string list \<Rightarrow> error + string" where
  "posixpath_join parts =
     (case parts of
        [] \<Rightarrow> Inl (Raised TypeError)
      | a # p \<Rightarrow> Inr (join_loop a p))"

text \<open>\<open>posixpath.normpath(path)\<close>.\<close>

fun normpath_loop :: "nat \<Rightarrow> string list \<Rightarrow> string list \<Rightarrow> string list" where
  "normpath_loop initial_slashes new_comps [] = new_comps"
| "normpath_loop initial_slashes new_comps (cmp # comps) =
     (if cmp = [] \<or> cmp = ''.'' then normpath_loop initial_slashes new_comps comps
      else if cmp \<noteq> ''..'' \<or> (initial_slashes = 0 \<and> new_comps = []) \<or>
              (new_comps \<noteq> [] \<and> last new_comps = ''..'')
      then normpath_loop initial_slashes (new_comps @ [cmp]) comps
      else if new_comps \<noteq> [] then normpath_loop initial_slashes (butlast new_comps) comps
      else normpath_loop initial_slashes new_comps comps)"

definition normpath :: "string \<Rightarrow> string" where
  "normpath path =
     (if path = [] then ''.''
      else
        (let initial_slashes =
               (if prefix ''/'' path
                then (if prefix ''//'' path \<and> \<not> prefix ''///'' path then 2 else 1)
                else 0);
             comps = split_on (CHR ''/'') path;
             new_comps = normpath_loop initial_slashes [] comps;
             path1 = join ''/'' new_comps;
             path2 = (if initial_slashes \<noteq> 0
                      then replicate initial_slashes (CHR ''/'') @ path1 else path1)
         in if path2 = [] then ''.'' else path2))"

definition normalize_zip_path :: "string list \<Rightarrow> error + string" where
  "normalize_zip_path parts =
     (case posixpath_join parts of
        Inl e \<Rightarrow> Inl e
      | Inr joined \<Rightarrow> Inr (lstrip_chars ''/'' (normpath joined)))"

subsection \<open>\<open>iter_files_recursive\<close>\<close>

definition iter_files_recursive :: "filesystem \<Rightarrow> Path \<Rightarrow> Path list" where
  "iter_files_recursive fs root = filter (is_file fs) (sort_key path_key (rglob fs root))"

subsection \<open>\<open>ConvertOptions\<close> and \<open>build_manifest\<close>\<close>

record ConvertOptions =
  audio_path :: Path
  out_path :: Path
  title :: string
  description :: string
  creation_mode :: string
  tier :: string
  author :: string
  contact :: string
  ownership_claim :: bool
  ai_systems :: "string list"
  apps :: "string list"
  toolchain_notes :: string
  prompt_path :: "Path option"
  negative_prompt_path :: "Path option"
  lyrics_path :: "Path option"
  stems_dir :: "Path option"
  persona_path :: "Path option"
  declaration_path :: "Path option"
  urls :: "string list"

text \<open>
  A \<open>dict\<close> keeps its keys in insertion order: \<open>d[k] = v\<close> replaces the value of a key
  that is there and appends a new key; \<open>d.get(k, default)\<close>.
\<close>

type_synonym dict = "(string \<times> json) list"

fun dict_set :: "dict \<Rightarrow> string \<Rightarrow> json \<Rightarrow> dict" where
  "dict_set [] k v = [(k, v)]"
| "dict_set ((k', v') # d) k v = (if k' = k then (k, v) # d else (k', v') # dict_set d k v)"

definition dict_get :: "dict \<Rightarrow> string \<Rightarrow> json \<Rightarrow> json" where
  "dict_get d k dflt = (case map_of d k of Some v \<Rightarrow> v | None \<Rightarrow> dflt)"

text \<open>A path object is always true; \<open>if opts.x_path\<close> asks whether one was given.\<close>

definition given :: "Path option \<Rightarrow> bool" where
  "given po = (po \<noteq> None)"

text \<open>The dictionary literal that \<open>build_manifest\<close> starts from.\<close>

definition base_fields :: "ConvertOptions \<Rightarrow> datetime \<Rightarrow> dict" where
  "base_fields opts now =
        [(''aifx_format_version'', JString AIFX_FORMAT_VERSION),
         (''aifx_spec_version'', JString AIFX_SPEC_VERSION),
         (''format'', JString ''AIFM''),
         (''created_at'', JString (utc_now_iso now)),
         (''title'', JString (if title opts \<noteq> [] then title opts else ''Untitled'')),
         (''description'', JString (if description opts \<noteq> [] then description opts else [])),
         (''creation_mode'', JString (creation_mode opts)),
         (''human_authorship'', JObject
            [(''name'', JString (author opts)),
             (''role'', JString ''AI Content Director''),
             (''ownership_claim'', JBool (ownership_claim opts)),
             (''contact'', JString (contact opts))]),
         (''ai_systems'',
            (if ai_systems opts \<noteq> []
             then JArray (map (\<lambda>n. JObject [(''name'', JString n),
                                               (''role'', JString ''generation'')])
                            (ai_systems opts))
             else JArray [])),
         (''toolchain'', JObject
            [(''apps'', JArray (map JString (if apps opts \<noteq> [] then apps opts else []))),
             (''notes'', JString (if toolchain_notes opts \<noteq> []
                                  then toolchain_notes opts else []))]),
         (''inputs'', JObject
            [(''prompts_included'',
                JBool (given (prompt_path opts) \<or> given (negative_prompt_path opts))),
             (''seeds_included'', JBool False),
             (''source_assets_included'', JBool False)]),
         (''verification'', JObject
            [(''tier'', JString (tier opts)),
             (''method'', JString (if tier opts = ''SDA'' then ''self-declared''
                                   else ''declared'')),
             (''signing'', JString ''none'')]),
         (''integrity'', JObject
            [(''hash_alg'', JString ''SHA-256''),
             (''checksums_ref'', JString ''verification/checksums.sha256'')])]"

text \<open>The optional references that \<open>build_manifest\<close> then adds, and the stems
  indicator.\<close>

definition optional_fields :: "ConvertOptions \<Rightarrow> dict \<Rightarrow> dict" where
  "optional_fields opts manifest0 =
     (let manifest = manifest0;
        manifest =
          (if given (persona_path opts)
           then dict_set manifest ''persona_ref'' (JString ''metadata/persona.txt'')
           else manifest);
        manifest =
          (if given (declaration_path opts)
           then dict_set manifest ''declaration''
                  (JObject [(''type'', JString ''Creator-Declared''),
                            (''text_ref'', JString ''metadata/declaration.txt'')])
           else manifest);
        manifest =
          (if given (lyrics_path opts)
           then dict_set manifest ''lyrics_ref'' (JString ''metadata/lyrics.txt'')
           else manifest);
        manifest =
          (if given (prompt_path opts) \<or> given (negative_prompt_path opts)
           then dict_set manifest ''prompt_refs''
                  (JObject
                     [(''prompt'',
                         JString (if given (prompt_path opts)
                                  then ''metadata/prompt/prompt.txt'' else [])),
                      (''negative_prompt'',
                         JString (if given (negative_prompt_path opts)
                                  then ''metadata/prompt/negative_prompt.txt'' else []))])
           else manifest);
        manifest = dict_set manifest ''stems_included'' (JBool (given (stems_dir opts)));
        manifest =
          (if urls opts \<noteq> []
           then dict_set manifest ''public_attestation''
                  (JObject [(''urls'', JArray (map JString (urls opts))),
                            (''notes'', JString [])])
           else manifest)
      in manifest)"

definition build_manifest :: "ConvertOptions \<Rightarrow> datetime \<Rightarrow> dict" where
  "build_manifest opts now = optional_fields opts (base_fields opts now)"

subsection \<open>Opening the archive\<close>

text \<open>\<open>PurePath.parent\<close>.\<close>

definition parent :: "Path \<Rightarrow> Path" where
  "parent p = Path (anchor p) (butlast (tail p))"

text \<open>
  \<open>p.mkdir(parents=True, exist_ok=True)\<close> creates \<open>p\<close> and the directories above it
  that are missing.  It raises \<open>NotADirectoryError\<close> when something above \<open>p\<close> is there
  and is not a directory, and \<open>FileExistsError\<close> when \<open>p\<close> itself is.
\<close>

definition mkdir_parents :: "filesystem \<Rightarrow> Path \<Rightarrow> error option" where
  "mkdir_parents fs p =
     (if list_ex (\<lambda>k. is_file fs (Path (anchor p) (take k (tail p)))) [0 ..< length (tail p)]
      then Some (Raised NotADirectoryError)
      else if is_file fs p then Some (Raised FileExistsError)
      else None)"

text \<open>
  The rows that \<open>p.mkdir(parents=True, exist_ok=True)\<close> adds to the table: \<open>p\<close> and
  every path above it, as directories.  They go to the end of the table, where a row
  counts only for a path that was not there.
\<close>

definition made_dirs :: "Path \<Rightarrow> (Path \<times> node) list" where
  "made_dirs p =
     map (\<lambda>k. (Path (anchor p) (take k (tail p)), Directory)) [0 ..< Suc (length (tail p))]"

text \<open>
  \<open>out.parent.mkdir(parents=True, exist_ok=True)\<close>, then \<open>zipfile.ZipFile(out, "w")\<close>,
  which cannot open a directory for writing.
\<close>

definition create_archive :: "filesystem \<Rightarrow> Path \<Rightarrow> error option" where
  "create_archive fs out =
     (case mkdir_parents fs (parent out) of
        Some e \<Rightarrow> Some e
      | None \<Rightarrow>
          (if is_dir (fs @ made_dirs (parent out)) out then Some (Raised IsADirectoryError)
           else None))"

text \<open>
  \<open>zipfile.ZipFile(out, "w")\<close> empties the file at \<open>out\<close>, and each entry is put into
  that file when it is written.  So while the archive is open and holds the entries
  \<open>zf\<close>, the file system is the one the conversion began with, with the directories
  above \<open>out\<close> and with a file at \<open>out\<close> that holds what was written so far.
\<close>

definition partial_archive :: "library \<Rightarrow> zipfile \<Rightarrow> bytes" where
  "partial_archive lib zf = (if zf = [] then [] else zip_records lib zf)"

definition while_writing :: "library \<Rightarrow> filesystem \<Rightarrow> Path \<Rightarrow> zipfile \<Rightarrow> filesystem" where
  "while_writing lib fs out zf =
     (out, RegularFile (partial_archive lib zf)) # fs @ made_dirs (parent out)"

subsection \<open>Writing entries\<close>

text \<open>
  \<open>zipfile.ZipInfo(arcname)\<close> ends the name at its first null character (and, where
  the separator of the platform is not \<open>/\<close>, replaces it: not on POSIX).
\<close>

definition ZipInfo :: "string \<Rightarrow> zip_entry" where
  "ZipInfo arcname =
     \<lparr>filename = takeWhile (\<lambda>c. c \<noteq> NUL) arcname,
      date_time = (1980, 1, 1, 0, 0, 0),
      compress_type = ZIP_STORED,
      content = [],
      failure = None\<rparr>"

definition zip_write_bytes :: "zipfile \<Rightarrow> string \<Rightarrow> bytes \<Rightarrow> zipfile" where
  "zip_write_bytes zf arcname d =
     (let info = ZipInfo arcname;
          info = info\<lparr>date_time := (1980, 1, 1, 0, 0, 0)\<rparr>;
          info = info\<lparr>compress_type := ZIP_DEFLATED\<rparr>
      in zf @ [info\<lparr>content := d\<rparr>])"

text \<open>
  \<open>zip_write_file\<close> reads its source when the entries \<open>zf\<close> are in the archive at
  \<open>out\<close>.
\<close>

definition zip_write_file ::
  "library \<Rightarrow> filesystem \<Rightarrow> Path \<Rightarrow> zipfile \<Rightarrow> string \<Rightarrow> Path \<Rightarrow> error + zipfile" where
  "zip_write_file lib fs out zf arcname src_path =
     (let info = ZipInfo arcname;
          info = info\<lparr>date_time := (1980, 1, 1, 0, 0, 0)\<rparr>;
          info = info\<lparr>compress_type := ZIP_DEFLATED\<rparr>
      in and_then (read_bytes (while_writing lib fs out zf) src_path)
           (\<lambda>d. Inr (zf @ [info\<lparr>content := d\<rparr>])))"

subsection \<open>\<open>make_checksums_payload_only\<close>\<close>

fun checksum_lines ::
  "library \<Rightarrow> filesystem \<Rightarrow> string list \<Rightarrow> (string \<times> Path) list \<Rightarrow> error + string list" where
  "checksum_lines lib fs lines [] = Inr lines"
| "checksum_lines lib fs lines ((zip_path, local_path) # rest) =
     and_then (sha256_file lib fs local_path)
       (\<lambda>digest. checksum_lines lib fs (lines @ [digest @ ''  '' @ zip_path]) rest)"

definition make_checksums_payload_only ::
  "library \<Rightarrow> filesystem \<Rightarrow> (string \<times> Path) list \<Rightarrow> error + string" where
  "make_checksums_payload_only lib fs payload_entries =
     and_then (checksum_lines lib fs [] (sort_key fst payload_entries))
       (\<lambda>lines. Inr (join [LF] lines @ [LF]))"

subsection \<open>\<open>build_readme\<close>\<close>

text \<open>A value inside an f-string: a \<open>str\<close> as it is, a \<open>bool\<close> by name, a list or
  dict through \<open>repr\<close>.\<close>

definition format_value :: "library \<Rightarrow> json \<Rightarrow> string" where
  "format_value lib v =
     (case v of
        JString s \<Rightarrow> s
      | JBool b \<Rightarrow> (if b then ''True'' else ''False'')
      | _ \<Rightarrow> py_repr lib v)"

definition build_readme :: "library \<Rightarrow> dict \<Rightarrow> error + string" where
  "build_readme lib manifest =
     (case dict_get manifest ''verification'' (JObject []) of
        JObject verification \<Rightarrow>
          (let tier = dict_get verification ''tier'' (JString ''SDA'');
               title = dict_get manifest ''title'' (JString ''Untitled'');
               created_at = dict_get manifest ''created_at'' (JString [])
           in Inr (''AIFX Container (AIFM)'' @ [LF] @
                   ''-------------------'' @ [LF] @
                   ''Title: '' @ format_value lib title @ [LF] @
                   ''Created At (UTC): '' @ format_value lib created_at @ [LF] @
                   ''Verification Tier: '' @ format_value lib tier @ [LF, LF] @
                   ''This container is a ZIP-based AIFX format.'' @ [LF] @
                   ''Authoritative metadata is in: metadata/manifest.json'' @ [LF] @
                   ''Integrity hashes are in: verification/checksums.sha256'' @ [LF] @
                   ''This README is non-authoritative.'' @ [LF]))
      | _ \<Rightarrow> Inl (Raised AttributeError))"

subsection \<open>\<open>convert_aifm\<close>\<close>

text \<open>\<open>opts.x and not opts.x.exists()\<close>.\<close>

definition given_but_missing :: "filesystem \<Rightarrow> Path option \<Rightarrow> bool" where
  "given_but_missing fs po = (case po of None \<Rightarrow> False | Some p \<Rightarrow> \<not> path_exists fs p)"

definition not_found :: "string \<Rightarrow> Path option \<Rightarrow> error" where
  "not_found what po =
     RaisedWith FileNotFoundError
       (what @ '' not found: '' @ (case po of Some p \<Rightarrow> path_str p | None \<Rightarrow> []))"

text \<open>The checks that open \<open>convert_aifm\<close>, in their order; the first that fails raises.\<close>

definition check_inputs :: "filesystem \<Rightarrow> ConvertOptions \<Rightarrow> error option" where
  "check_inputs fs opts =
     (let audio = audio_path opts
      in if \<not> path_exists fs audio \<or> \<not> is_file fs audio
           then Some (not_found ''Audio file'' (Some audio))
         else if given_but_missing fs (stems_dir opts)
           then Some (not_found ''Stems directory'' (stems_dir opts))
         else if given_but_missing fs (persona_path opts)
           then Some (not_found ''Persona file'' (persona_path opts))
         else if given_but_missing fs (declaration_path opts)
           then Some (not_found ''Declaration file'' (declaration_path opts))
         else if given_but_missing fs (prompt_path opts)
           then Some (not_found ''Prompt file'' (prompt_path opts))
         else if given_but_missing fs (negative_prompt_path opts)
           then Some (not_found ''Negative prompt file'' (negative_prompt_path opts))
         else if given_but_missing fs (lyrics_path opts)
           then Some (not_found ''Lyrics file'' (lyrics_path opts))
         else None)"

text \<open>\<open>out = opts.out_path; if out.suffix.lower() != ".aifm": out =
  out.with_suffix(".aifm")\<close>.\<close>

definition output_path :: "Path \<Rightarrow> error + Path" where
  "output_path out =
     (if lower (path_suffix out) \<noteq> ''.aifm'' then with_suffix out ''.aifm'' else Inr out)"

text \<open>\<open>str(rel).replace(os.sep, "/")\<close>, where \<open>os.sep\<close> is \<open>/\<close>.\<close>

definition os_sep :: char where "os_sep = CHR ''/''"

fun stems_loop ::
  "filesystem \<Rightarrow> Path \<Rightarrow> (string \<times> Path) list \<Rightarrow> Path list \<Rightarrow> error + (string \<times> Path) list" where
  "stems_loop fs dir stems_files [] = Inr stems_files"
| "stems_loop fs dir stems_files (f # rest) =
     and_then (relative_to f dir) (\<lambda>rel.
     and_then (normalize_zip_path
                 [''payload'', ''stems'', replace_char os_sep ''/'' (path_str rel)])
       (\<lambda>zip_path. stems_loop fs dir (stems_files @ [(zip_path, f)]) rest))"

definition collect_stems :: "filesystem \<Rightarrow> Path option \<Rightarrow> error + (string \<times> Path) list" where
  "collect_stems fs sd =
     (case sd of
        None \<Rightarrow> Inr []
      | Some dir \<Rightarrow> stems_loop fs dir [] (iter_files_recursive fs dir))"

fun write_stems ::
  "library \<Rightarrow> filesystem \<Rightarrow> Path \<Rightarrow> zipfile \<Rightarrow> (string \<times> Path) list \<Rightarrow> error + zipfile" where
  "write_stems lib fs out zf [] = Inr zf"
| "write_stems lib fs out zf ((zip_path, fpath) # rest) =
     and_then (zip_write_file lib fs out zf zip_path fpath)
       (\<lambda>zf'. write_stems lib fs out zf' rest)"

text \<open>\<open>if opts.x: zip_write_file(zf, normalize_zip_path(...), opts.x)\<close>.\<close>

definition write_optional ::
  "library \<Rightarrow> filesystem \<Rightarrow> Path \<Rightarrow> zipfile \<Rightarrow> string list \<Rightarrow> Path option \<Rightarrow> error + zipfile" where
  "write_optional lib fs out zf parts po =
     (case po of
        None \<Rightarrow> Inr zf
      | Some p \<Rightarrow>
          and_then (normalize_zip_path parts)
            (\<lambda>arcname. zip_write_file lib fs out zf arcname p))"

text \<open>The body of \<open>with zipfile.ZipFile(out, "w", ...) as zf\<close>.\<close>

definition write_archive ::
  "library \<Rightarrow> filesystem \<Rightarrow> Path \<Rightarrow> ConvertOptions \<Rightarrow> string \<Rightarrow> (string \<times> Path) list \<Rightarrow>
   bytes \<Rightarrow> bytes \<Rightarrow> bytes \<Rightarrow> error + zipfile" where
  "write_archive lib fs out opts audio_zip_path stems_files manifest_bytes checksums_bytes
     readme_bytes =
     and_then (zip_write_file lib fs out [] audio_zip_path (audio_path opts)) (\<lambda>zf.
     and_then (write_stems lib fs out zf (sort_key fst stems_files)) (\<lambda>zf.
     and_then (normalize_zip_path [''metadata'', ''manifest.json'']) (\<lambda>manifest_name.
     and_then (write_optional lib fs out (zip_write_bytes zf manifest_name manifest_bytes)
                 [''metadata'', ''prompt'', ''prompt.txt''] (prompt_path opts)) (\<lambda>zf.
     and_then (write_optional lib fs out zf
                 [''metadata'', ''prompt'', ''negative_prompt.txt'']
                 (negative_prompt_path opts)) (\<lambda>zf.
     and_then (write_optional lib fs out zf [''metadata'', ''lyrics.txt'']
                 (lyrics_path opts)) (\<lambda>zf.
     and_then (write_optional lib fs out zf [''metadata'', ''persona.txt'']
                 (persona_path opts)) (\<lambda>zf.
     and_then (write_optional lib fs out zf [''metadata'', ''declaration.txt'']
                 (declaration_path opts)) (\<lambda>zf.
     and_then (normalize_zip_path [''verification'', ''checksums.sha256'']) (\<lambda>checksums_name.
     Inr (zip_write_bytes (zip_write_bytes zf checksums_name checksums_bytes)
            ''README.txt'' readme_bytes))))))))))"

text \<open>\<open>audio_ext = audio.suffix.lower().lstrip(".") or "wav"\<close>.\<close>

definition audio_ext :: "Path \<Rightarrow> string" where
  "audio_ext audio =
     (let stripped = lstrip_chars ''.'' (lower (path_suffix audio))
      in if stripped \<noteq> [] then stripped else ''wav'')"

text \<open>
  \<open>convert_aifm\<close> returns the path of the archive it wrote and the archive, or the
  exception it raised.  The clock is read once, in \<open>build_manifest\<close>.  The stems are
  listed and the ledger is computed before the archive is opened; the sources are copied
  into the archive after that, each as the file system holds it at that moment.
\<close>

definition convert_aifm ::
  "library \<Rightarrow> filesystem \<Rightarrow> datetime \<Rightarrow> ConvertOptions \<Rightarrow> error + (Path \<times> zipfile)" where
  "convert_aifm lib fs now opts =
     (case check_inputs fs opts of
        Some e \<Rightarrow> Inl e
      | None \<Rightarrow>
          and_then (output_path (out_path opts)) (\<lambda>out.
          (let audio = audio_path opts
           in and_then (normalize_zip_path [''payload'', ''audio'', ''main.'' @ audio_ext audio])
                (\<lambda>audio_zip_path.
              and_then (collect_stems fs (stems_dir opts)) (\<lambda>stems_files.
              (let payload_entries = [(audio_zip_path, audio)] @ stems_files;
                   manifest = build_manifest opts now;
                   manifest_bytes = utf8_encode lib (json_dumps lib (JObject manifest))
               in and_then (make_checksums_payload_only lib fs payload_entries)
                    (\<lambda>checksums_text.
                  and_then (build_readme lib manifest) (\<lambda>readme_text.
                  (case create_archive fs out of
                     Some e \<Rightarrow> Inl e
                   | None \<Rightarrow>
                       and_then (write_archive lib fs out opts audio_zip_path stems_files
                                   manifest_bytes
                                   (utf8_encode lib checksums_text)
                                   (utf8_encode lib readme_text))
                         (\<lambda>zf. Inr (out, zf)))))))))))"

section \<open>The notions of the specification\<close>

subsection \<open>Ledger lines\<close>

text \<open>
  The first two tokens of a line, when it has two.
\<close>

definition first_two :: "string list \<Rightarrow> (string \<times> string) option" where
  "first_two parts = (case parts of a # b # rest \<Rightarrow> Some (a, b) | _ \<Rightarrow> None)"

text \<open>
  What one line of the ledger contributes: nothing when it is blank; the stripped
  halves around its leftmost pair of ASCII spaces when it has one; else its first two
  whitespace-separated tokens; nothing when it has fewer than two.
\<close>

definition ledger_line :: "string \<Rightarrow> (string \<times> string) option" where
  "ledger_line line0 =
     (let line = strip line0
      in if line = [] then None
         else (case split_first ''  '' line of
                 Some (h, p) \<Rightarrow> Some (strip h, strip p)
               | None \<Rightarrow> first_two (split_ws line)))"

text \<open>
  The parser in the specification's words: a line is split at its first run of two or
  more whitespace characters of any kind, when it has such a run.
\<close>

fun split_ws_run :: "string \<Rightarrow> (string \<times> string) option" where
  "split_ws_run (a # b # cs) =
     (if isspace a \<and> isspace b then Some ([], dropWhile isspace cs)
      else map_option (\<lambda>(l, r). (a # l, r)) (split_ws_run (b # cs)))"
| "split_ws_run cs = None"

definition claimed_line :: "string \<Rightarrow> (string \<times> string) option" where
  "claimed_line line0 =
     (let line = strip line0
      in if line = [] then None
         else (case split_ws_run line of
                 Some (h, p) \<Rightarrow> Some (h, p)
               | None \<Rightarrow> first_two (split_ws line)))"

definition parse_ledger_claimed :: "string \<Rightarrow> (string \<times> string) list" where
  "parse_ledger_claimed text = List.map_filter claimed_line (splitlines text)"

subsection \<open>Discrepancies\<close>





subsection \<open>Optional manifest fields\<close>

text \<open>
  The value stored under \<open>prompt_refs\<close>: both keys, each holding its canonical path
  when that prompt was given and the empty string when it was not.
\<close>

definition prompt_refs_value :: "ConvertOptions \<Rightarrow> json" where
  "prompt_refs_value opts =
     JObject
       [(''prompt'',
           JString (if given (prompt_path opts) then ''metadata/prompt/prompt.txt'' else [])),
        (''negative_prompt'',
           JString (if given (negative_prompt_path opts)
                    then ''metadata/prompt/negative_prompt.txt'' else []))]"

subsection \<open>The output path\<close>

text \<open>\<open>PurePath.stem\<close>: the name without its suffix.\<close>

definition path_stem :: "Path \<Rightarrow> string" where
  "path_stem p = take (length (path_name p) - length (path_suffix p)) (path_name p)"

subsection \<open>Normalised archive paths\<close>

text \<open>
  A segment that normalisation keeps as it is: not empty, not \<open>.\<close>, not \<open>..\<close>, and
  without a slash.
\<close>

definition clean_segment :: "string \<Rightarrow> bool" where
  "clean_segment c = (c \<noteq> [] \<and> c \<noteq> ''.'' \<and> c \<noteq> ''..'' \<and> CHR ''/'' \<notin> set c)"

text \<open>A sequence of segments that is a run of \<open>..\<close> followed by clean segments only.\<close>

definition dotdot_then_clean :: "string list \<Rightarrow> bool" where
  "dotdot_then_clean cs = list_all clean_segment (dropWhile (\<lambda>c. c = ''..'') cs)"

text \<open>
  The invariant of the loop of \<open>normpath\<close>: the components kept so far are a run of
  \<open>..\<close>, empty when the path is absolute, followed by clean segments.
\<close>

definition loop_inv :: "nat \<Rightarrow> string list \<Rightarrow> bool" where
  "loop_inv initial cs =
     (\<exists>k rest. cs = replicate k ''..'' @ rest \<and> list_all clean_segment rest \<and>
               (initial \<noteq> 0 \<longrightarrow> k = 0))"

text \<open>The count of leading slashes that \<open>normpath\<close> keeps.\<close>

definition initial_slashes_of :: "string \<Rightarrow> nat" where
  "initial_slashes_of path =
     (if prefix ''/'' path
      then (if prefix ''//'' path \<and> \<not> prefix ''///'' path then 2 else 1)
      else 0)"

subsection \<open>The rendered ledger\<close>

text \<open>The content of a regular file (empty for anything else).\<close>

definition file_bytes :: "filesystem \<Rightarrow> Path \<Rightarrow> bytes" where
  "file_bytes fs p = (case map_of fs p of Some (RegularFile b) \<Rightarrow> b | _ \<Rightarrow> [])"

text \<open>
  The line that the ledger holds for a payload entry, and the pair that a reader is
  to get back from it.
\<close>

definition ledger_record :: "library \<Rightarrow> filesystem \<Rightarrow> string \<times> Path \<Rightarrow> string" where
  "ledger_record lib fs e = sha256_hex lib (file_bytes fs (snd e)) @ ''  '' @ fst e"

definition ledger_entry :: "library \<Rightarrow> filesystem \<Rightarrow> string \<times> Path \<Rightarrow> string \<times> string" where
  "ledger_entry lib fs e = (sha256_hex lib (file_bytes fs (snd e)), fst e)"

text \<open>A digest as SHA-256 prints it: 64 lowercase hexadecimal digits.\<close>

definition hex64 :: "string \<Rightarrow> bool" where
  "hex64 d = (length d = 64 \<and> list_all (\<lambda>c. c \<in> set ''0123456789abcdef'') d)"

definition no_linebreak :: "string \<Rightarrow> bool" where
  "no_linebreak s = list_all (\<lambda>c. \<not> linebreak c) s"

definition no_space :: "string \<Rightarrow> bool" where
  "no_space s = list_all (\<lambda>c. \<not> isspace c) s"

text \<open>
  The paths and digests that survive rendering and parsing: a path that is not empty,
  holds no line boundary and neither starts nor ends with whitespace; a digest that is
  not empty and holds no whitespace.
\<close>

definition path_round_trips :: "string \<Rightarrow> bool" where
  "path_round_trips p =
     (p \<noteq> [] \<and> no_linebreak p \<and> \<not> isspace (hd p) \<and> \<not> isspace (last p))"

definition digest_round_trips :: "string \<Rightarrow> bool" where
  "digest_round_trips d = (d \<noteq> [] \<and> no_space d)"

subsection \<open>File names and the layout of the archive\<close>

text \<open>An entry as the converter writes it: fixed time stamp, deflated, and such that
  it reads back.\<close>

definition stored :: "string \<Rightarrow> bytes \<Rightarrow> zip_entry" where
  "stored name d =
     \<lparr>filename = name, date_time = (1980, 1, 1, 0, 0, 0), compress_type = ZIP_DEFLATED,
      content = d, failure = None\<rparr>"

text \<open>
  What a directory entry can be called on a POSIX file system: not empty, not \<open>.\<close>
  or \<open>..\<close>, without slash and without null character.  A file system whose table
  lists resolved paths holds such components only.
\<close>

definition file_name :: "string \<Rightarrow> bool" where
  "file_name c =
     (c \<noteq> [] \<and> c \<noteq> ''.'' \<and> c \<noteq> ''..'' \<and> CHR ''/'' \<notin> set c \<and> NUL \<notin> set c)"

definition posix_fs :: "filesystem \<Rightarrow> bool" where
  "posix_fs fs = list_all (\<lambda>row. list_all file_name (tail (fst row))) fs"

text \<open>The payload entry of a stem file \<open>f\<close> found below the stems directory.\<close>

definition stem_entry :: "Path \<Rightarrow> Path \<Rightarrow> string \<times> Path" where
  "stem_entry dir f =
     (join ''/'' (''payload'' # ''stems'' # drop (length (tail dir)) (tail f)), f)"

text \<open>
  The entries of a finished archive that was written apart from its sources, in the
  order of writing: the audio, the stems in ascending order of archive path, the
  manifest, the optional texts that were given, the ledger and the README.
\<close>

definition optional_entry :: "filesystem \<Rightarrow> string \<Rightarrow> Path option \<Rightarrow> zip_entry list" where
  "optional_entry fs name po =
     (case po of None \<Rightarrow> [] | Some p \<Rightarrow> [stored name (file_bytes fs p)])"

definition archive_layout ::
  "filesystem \<Rightarrow> ConvertOptions \<Rightarrow> string \<Rightarrow> (string \<times> Path) list \<Rightarrow>
   bytes \<Rightarrow> bytes \<Rightarrow> bytes \<Rightarrow> zipfile" where
  "archive_layout fs opts audio_zip_path stems_files manifest_bytes checksums_bytes readme_bytes =
     [stored audio_zip_path (file_bytes fs (audio_path opts))] @
     map (\<lambda>e. stored (fst e) (file_bytes fs (snd e))) (sort_key fst stems_files) @
     [stored ''metadata/manifest.json'' manifest_bytes] @
     optional_entry fs ''metadata/prompt/prompt.txt'' (prompt_path opts) @
     optional_entry fs ''metadata/prompt/negative_prompt.txt'' (negative_prompt_path opts) @
     optional_entry fs ''metadata/lyrics.txt'' (lyrics_path opts) @
     optional_entry fs ''metadata/persona.txt'' (persona_path opts) @
     optional_entry fs ''metadata/declaration.txt'' (declaration_path opts) @
     [stored ''verification/checksums.sha256'' checksums_bytes,
      stored ''README.txt'' readme_bytes]"

subsection \<open>The entries of a conversion\<close>

text \<open>
  The archive path of the audio, the payload entries of the stems, the payload entries
  that the ledger is rendered from, and the names of the entries that are not payload.
\<close>

definition audio_zip_path_of :: "ConvertOptions \<Rightarrow> string" where
  "audio_zip_path_of opts = ''payload/audio/main.'' @ audio_ext (audio_path opts)"

definition stems_files_of :: "filesystem \<Rightarrow> ConvertOptions \<Rightarrow> (string \<times> Path) list" where
  "stems_files_of fs opts =
     (case stems_dir opts of
        None \<Rightarrow> []
      | Some dir \<Rightarrow> map (stem_entry dir) (iter_files_recursive fs dir))"

definition payload_entries_of :: "filesystem \<Rightarrow> ConvertOptions \<Rightarrow> (string \<times> Path) list" where
  "payload_entries_of fs opts = (audio_zip_path_of opts, audio_path opts) # stems_files_of fs opts"

definition optional_names :: "ConvertOptions \<Rightarrow> string list" where
  "optional_names opts =
     (if given (prompt_path opts) then [''metadata/prompt/prompt.txt''] else []) @
     (if given (negative_prompt_path opts) then [''metadata/prompt/negative_prompt.txt'']
      else []) @
     (if given (lyrics_path opts) then [''metadata/lyrics.txt''] else []) @
     (if given (persona_path opts) then [''metadata/persona.txt''] else []) @
     (if given (declaration_path opts) then [''metadata/declaration.txt''] else [])"

definition fixed_names_of :: "ConvertOptions \<Rightarrow> string list" where
  "fixed_names_of opts =
     [''metadata/manifest.json''] @
     (if given (prompt_path opts) then [''metadata/prompt/prompt.txt''] else []) @
     (if given (negative_prompt_path opts) then [''metadata/prompt/negative_prompt.txt'']
      else []) @
     (if given (lyrics_path opts) then [''metadata/lyrics.txt''] else []) @
     (if given (persona_path opts) then [''metadata/persona.txt''] else []) @
     (if given (declaration_path opts) then [''metadata/declaration.txt''] else []) @
     [''verification/checksums.sha256'', ''README.txt'']"

subsection \<open>What depends on the clock\<close>





text \<open>The README of a conversion, as a function of the creation time.\<close>

definition readme_text :: "ConvertOptions \<Rightarrow> string \<Rightarrow> string" where
  "readme_text opts created_at =
     ''AIFX Container (AIFM)'' @ [LF] @
     ''-------------------'' @ [LF] @
     ''Title: '' @ (if title opts \<noteq> [] then title opts else ''Untitled'') @ [LF] @
     ''Created At (UTC): '' @ created_at @ [LF] @
     ''Verification Tier: '' @ tier opts @ [LF, LF] @
     ''This container is a ZIP-based AIFX format.'' @ [LF] @
     ''Authoritative metadata is in: metadata/manifest.json'' @ [LF] @
     ''Integrity hashes are in: verification/checksums.sha256'' @ [LF] @
     ''This README is non-authoritative.'' @ [LF]"


subsection \<open>Inputs of a conversion that completes\<close>



definition optional_sources :: "ConvertOptions \<Rightarrow> Path list" where
  "optional_sources opts =
     concat (map (\<lambda>po. case po of None \<Rightarrow> [] | Some p \<Rightarrow> [p])
       [prompt_path opts, negative_prompt_path opts, lyrics_path opts, persona_path opts,
        declaration_path opts])"

definition sources_read :: "filesystem \<Rightarrow> ConvertOptions \<Rightarrow> Path list" where
  "sources_read fs opts = map snd (payload_entries_of fs opts) @ optional_sources opts"

text \<open>
  The archive is written apart from its sources: the path it is written at, when there
  is one, is none of the files that the conversion reads.
\<close>

definition output_apart :: "filesystem \<Rightarrow> ConvertOptions \<Rightarrow> bool" where
  "output_apart fs opts =
     (case output_path (out_path opts) of
        Inl e \<Rightarrow> True
      | Inr out \<Rightarrow> out \<notin> set (sources_read fs opts))"

text \<open>
  A path of the payload: it starts with \<open>payload/\<close>, and so it neither starts with
  \<open>metadata/\<close> nor is \<open>README.txt\<close>.
\<close>

definition payload_path :: "string \<Rightarrow> bool" where
  "payload_path p =
     (prefix ''payload/'' p \<and> \<not> prefix ''metadata/'' p \<and> p \<noteq> ''README.txt'')"

text \<open>
  What a reader is to get from the ledger line of a payload entry when the path holds
  no line boundary: the digest, and the path without the whitespace at its end.
\<close>

definition parsed_entry :: "library \<Rightarrow> filesystem \<Rightarrow> string \<times> Path \<Rightarrow> string \<times> string" where
  "parsed_entry lib fs e = (sha256_hex lib (file_bytes fs (snd e)), strip (fst e))"

section \<open>A stand-in library for examples\<close>

text \<open>
  The examples below run the code on concrete inputs, which needs concrete library
  functions.  The stand-in digest is 64 lowercase hexadecimal digits that depend on
  the length of the data only; the stand-in codec is the identity (UTF-8 on ASCII
  text); the stand-in serialiser writes compact JSON without escapes; the stand-in for
  the bytes of an archive that is being written lists names and contents.
\<close>

definition hex_digit :: "nat \<Rightarrow> char" where
  "hex_digit n = (''0123456789abcdef'' ! (n mod 16))"

definition toy_digest :: "bytes \<Rightarrow> string" where
  "toy_digest d = replicate 62 (CHR ''0'') @ [hex_digit (length d div 16), hex_digit (length d)]"

fun toy_dumps :: "json \<Rightarrow> string" where
  "toy_dumps (JString s) = [CHR 0x22] @ s @ [CHR 0x22]"
| "toy_dumps (JBool b) = (if b then ''true'' else ''false'')"
| "toy_dumps (JArray vs) = ''['' @ join '', '' (map toy_dumps vs) @ '']''"
| "toy_dumps (JObject kvs) =
     ''{'' @ join '', '' (map (\<lambda>(k, v). [CHR 0x22] @ k @ [CHR 0x22] @ '': '' @ toy_dumps v) kvs)
     @ ''}''"

definition toy_records :: "zip_entry list \<Rightarrow> bytes" where
  "toy_records zf = concat (map (\<lambda>e. filename e @ '':'' @ content e @ '';'') zf)"

definition toy_library :: library where
  "toy_library =
     \<lparr>sha256_hex = toy_digest, utf8_encode = (\<lambda>s. s), utf8_decode = (\<lambda>b. b),
      json_dumps = toy_dumps, py_repr = toy_dumps, zip_records = toy_records\<rparr>"

subsection \<open>Example data\<close>

text \<open>The archive that a conversion wrote and the path it wrote it at.\<close>

definition archive_of :: "error + (Path \<times> zipfile) \<Rightarrow> zipfile" where
  "archive_of r = (case r of Inl e \<Rightarrow> [] | Inr (out, zf) \<Rightarrow> zf)"

definition written_at :: "error + (Path \<times> zipfile) \<Rightarrow> Path option" where
  "written_at r = (case r of Inl e \<Rightarrow> None | Inr (out, zf) \<Rightarrow> Some out)"



definition example_options :: ConvertOptions where
  "example_options =
     \<lparr>audio_path = Path ''/'' [''in'', ''song.WAV''],
      out_path = Path ''/'' [''out'', ''song.zip''],
      title = ''Test'', description = [], creation_mode = ''human-directed-ai'',
      tier = ''SDA'', author = ''someone'', contact = [], ownership_claim = True,
      ai_systems = [''Suno''], apps = [], toolchain_notes = [],
      prompt_path = None, negative_prompt_path = None, lyrics_path = None,
      stems_dir = None, persona_path = None, declaration_path = None, urls = []\<rparr>"

definition example_now :: datetime where
  "example_now = \<lparr>year = 2024, month = 3, day = 9, hour = 7, minute = 5, second = 0\<rparr>"

definition example_later :: datetime where
  "example_later = \<lparr>year = 2024, month = 3, day = 9, hour = 7, minute = 5, second = 1\<rparr>"

text \<open>Options that give a prompt and no negative prompt.\<close>

definition prompt_only_options :: ConvertOptions where
  "prompt_only_options = example_options\<lparr>prompt_path := Some (Path ''/'' [''in'', ''p.txt''])\<rparr>"

text \<open>A small file system: an audio file, a prompt, and a stems directory with a
  file and a subdirectory.\<close>

definition example_fs :: filesystem where
  "example_fs =
     [(Path ''/'' [''in''], Directory),
      (Path ''/'' [''in'', ''song.WAV''], RegularFile ''abc''),
      (Path ''/'' [''in'', ''p.txt''], RegularFile ''a prompt''),
      (Path ''/'' [''in'', ''stems''], Directory),
      (Path ''/'' [''in'', ''stems'', ''vocals.wav''], RegularFile ''vv''),
      (Path ''/'' [''in'', ''stems'', ''kit''], Directory),
      (Path ''/'' [''in'', ''stems'', ''kit'', ''drums.wav''], RegularFile ''dddd'')]"

definition stems_options :: ConvertOptions where
  "stems_options =
     example_options\<lparr>stems_dir := Some (Path ''/'' [''in'', ''stems'']),
                     prompt_path := Some (Path ''/'' [''in'', ''p.txt''])\<rparr>"

text \<open>Two payload entries, not in order of path.\<close>

definition example_entries :: "(string \<times> Path) list" where
  "example_entries =
     [(''payload/stems/vocals.wav'', Path ''/'' [''in'', ''stems'', ''vocals.wav'']),
      (''payload/audio/main.wav'', Path ''/'' [''in'', ''song.WAV''])]"

text \<open>An audio file whose name ends with a line feed.\<close>

definition newline_fs :: filesystem where
  "newline_fs =
     [(Path ''/'' [''in''], Directory),
      (Path ''/'' [''in'', ''song.wav'' @ [LF]], RegularFile ''abc'')]"

definition newline_options :: ConvertOptions where
  "newline_options = example_options\<lparr>audio_path := Path ''/'' [''in'', ''song.wav'' @ [LF]]\<rparr>"


text \<open>
  A stems directory with a file whose name holds a line feed, and after it two spaces
  and the name of the README.
\<close>

definition two_line_name :: string where
  "two_line_name = ''y'' @ [LF] @ ''h  README.txt''"

definition two_line_fs :: filesystem where
  "two_line_fs =
     [(Path ''/'' [''in''], Directory),
      (Path ''/'' [''in'', ''song.WAV''], RegularFile ''abc''),
      (Path ''/'' [''in'', ''stems''], Directory),
      (Path ''/'' [''in'', ''stems'', two_line_name], RegularFile ''vv'')]"

definition two_line_options :: ConvertOptions where
  "two_line_options = example_options\<lparr>stems_dir := Some (Path ''/'' [''in'', ''stems''])\<rparr>"

text \<open>Options that ask for the archive at the path of the prompt.\<close>

definition overwrite_options :: ConvertOptions where
  "overwrite_options =
     example_options\<lparr>prompt_path := Some (Path ''/'' [''in'', ''p.aifm'']),
                     out_path := Path ''/'' [''in'', ''p.aifm'']\<rparr>"

definition overwrite_fs :: filesystem where
  "overwrite_fs =
     [(Path ''/'' [''in''], Directory),
      (Path ''/'' [''in'', ''song.WAV''], RegularFile ''abc''),
      (Path ''/'' [''in'', ''p.aifm''], RegularFile ''a prompt'')]"



section \<open>The ledger parser\<close>

lemma parse_loop_append: "parse_loop acc ls = acc @ concat (map parse_line ls)"
  by (induction ls arbitrary: acc) simp_all

lemma first_two_eq:
  "(if length parts \<ge> 2 then [(parts ! 0, parts ! 1)] else []) =
   (case first_two parts of None \<Rightarrow> [] | Some e \<Rightarrow> [e])"
  by (cases parts; simp add: first_two_def split: list.splits)

lemma parse_line_ledger_line:
  "parse_line l = (case ledger_line l of None \<Rightarrow> [] | Some e \<Rightarrow> [e])"
  unfolding parse_line_def ledger_line_def contains_def Let_def first_two_eq
  by (simp split: option.splits)

lemma parse_sha256sum_map_filter:
  "parse_sha256sum text = List.map_filter ledger_line (splitlines text)"
proof -
  have "concat (map parse_line ls) = List.map_filter ledger_line ls" for ls
    by (induction ls)
      (simp_all add: parse_line_ledger_line List.map_filter_simps split: option.splits)
  then show ?thesis
    by (simp add: parse_sha256sum_def parse_loop_append)
qed

lemma split_first_Some:
  "split_first sep s = Some (a, b) \<Longrightarrow> s = a @ sep @ b"
proof (induction s arbitrary: a)
  case Nil
  then show ?case by (simp split: if_splits)
next
  case (Cons c cs)
  show ?case
  proof (cases "prefix sep (c # cs)")
    case True
    with Cons.prems show ?thesis
      by (auto simp: prefix_def)
  next
    case False
    with Cons.prems obtain a' where "split_first sep cs = Some (a', b)" "a = c # a'"
      by auto
    with Cons.IH show ?thesis by simp
  qed
qed

lemma split_first_leftmost:
  "split_first sep s = Some (a, b) \<Longrightarrow> i < length a \<Longrightarrow> \<not> prefix sep (drop i s)"
proof (induction s arbitrary: a i)
  case Nil
  then show ?case by (simp split: if_splits)
next
  case (Cons c cs)
  show ?case
  proof (cases "prefix sep (c # cs)")
    case True
    with Cons.prems show ?thesis by simp
  next
    case False
    with Cons.prems obtain a' where a': "split_first sep cs = Some (a', b)" "a = c # a'"
      by auto
    show ?thesis
    proof (cases i)
      case 0
      with False show ?thesis by simp
    next
      case (Suc j)
      with Cons.prems(2) a' have "j < length a'" by simp
      from Cons.IH [OF a'(1) this] Suc show ?thesis by simp
    qed
  qed
qed

lemma split_first_None:
  "split_first sep s = None \<Longrightarrow> \<not> prefix sep (drop i s)"
proof (induction s arbitrary: i)
  case Nil
  then show ?case by (simp split: if_splits)
next
  case (Cons c cs)
  then have np: "\<not> prefix sep (c # cs)" and rest: "split_first sep cs = None"
    by (auto split: if_splits)
  show ?case
  proof (cases i)
    case 0
    with np show ?thesis by simp
  next
    case (Suc j)
    with Cons.IH [OF rest, of j] show ?thesis by simp
  qed
qed

text \<open>
  C6, as the code has it.  \<open>parse_sha256sum\<close> goes through the lines of the text in
  order; a blank line gives nothing; a line with two consecutive ASCII spaces is split
  at the leftmost such pair and both halves are stripped; any other line gives its
  first two whitespace-separated tokens, or nothing when it has fewer than two.  The
  split is at the leftmost pair: the line is the first half, two spaces and the
  second half, and no pair of spaces starts earlier; the fallback is taken exactly when
  the line has no pair of spaces.
\<close>

theorem parse_sha256sum_lines:
  "parse_sha256sum text = List.map_filter ledger_line (splitlines text) \<and>
   (split_first ''  '' l = Some (h, p) \<longrightarrow>
      l = h @ ''  '' @ p \<and> (\<forall>i < length h. \<not> prefix ''  '' (drop i l))) \<and>
   (split_first ''  '' l = None \<longrightarrow> (\<forall>i. \<not> prefix ''  '' (drop i l)))"
  using parse_sha256sum_map_filter split_first_Some split_first_leftmost split_first_None
  by blast

theorem parse_sha256sum_lines_witness:
  "parse_sha256sum (''ab  cd e'' @ [LF, LF] @ ''x'' @ [LF] @ ''f g h'')
     = List.map_filter ledger_line [''ab  cd e'', [], ''x'', ''f g h'']
   \<and> List.map_filter ledger_line [''ab  cd e'', [], ''x'', ''f g h'']
     = [(''ab'', ''cd e''), (''f'', ''g'')]
   \<and> split_first ''  '' ''ab  cd  e'' = Some (''ab'', ''cd  e'')
   \<and> \<not> prefix ''  '' (drop 0 ''ab  cd  e'') \<and> \<not> prefix ''  '' (drop 1 ''ab  cd  e'')
   \<and> split_first ''  '' ''f g h'' = None
   \<and> (\<forall>i. \<not> prefix ''  '' (drop i ''f g h''))"
proof -
  have s: "splitlines (''ab  cd e'' @ [LF, LF] @ ''x'' @ [LF] @ ''f g h'')
             = [''ab  cd e'', [], ''x'', ''f g h'']"
    by code_simp
  have e: "List.map_filter ledger_line [''ab  cd e'', [], ''x'', ''f g h'']
             = [(''ab'', ''cd e''), (''f'', ''g'')]"
    by code_simp
  have f: "split_first ''  '' ''ab  cd  e'' = Some (''ab'', ''cd  e'')"
    and g: "split_first ''  '' ''f g h'' = None"
    by code_simp+
  from parse_sha256sum_lines
    [of "''ab  cd e'' @ [LF, LF] @ ''x'' @ [LF] @ ''f g h''" "''ab  cd  e''" "''ab''" "''cd  e''"]
    parse_sha256sum_lines [of "[]" "''f g h''"]
  show ?thesis
    using s e f g by simp
qed

text \<open>
  C6 as the specification words it fails: a line whose only run of two whitespace
  characters is a pair of tabs is not split at that run.  The code falls back to the
  first two tokens and drops the rest of the path.
\<close>

theorem parse_sha256sum_tab_run_counterexample:
  "parse_sha256sum (''h'' @ [TAB, TAB] @ ''a b'') = [(''h'', ''a'')] \<and>
   parse_ledger_claimed (''h'' @ [TAB, TAB] @ ''a b'') = [(''h'', ''a b'')]"
  by code_simp

section \<open>Checksum verification\<close>

lemma raised_by_not_KeyError: "raised_by f \<noteq> KeyError"
  by (cases f) (simp_all add: raised_by_def)









section \<open>The manifest\<close>

lemma map_of_dict_set:
  "map_of (dict_set d k v) k' = (if k' = k then Some v else map_of d k')"
  by (induction d k v rule: dict_set.induct) auto

lemma map_of_if_dict_set:
  "map_of (if c then dict_set d k v else d) k' =
     (if c \<and> k' = k then Some v else map_of d k')"
  by (simp add: map_of_dict_set)

lemma manifest_persona_ref:
  "map_of (build_manifest opts now) ''persona_ref'' =
     (if given (persona_path opts) then Some (JString ''metadata/persona.txt'') else None)"
  unfolding build_manifest_def optional_fields_def base_fields_def Let_def
    map_of_if_dict_set map_of_dict_set
  by simp

lemma manifest_declaration:
  "map_of (build_manifest opts now) ''declaration'' =
     (if given (declaration_path opts)
      then Some (JObject [(''type'', JString ''Creator-Declared''),
                          (''text_ref'', JString ''metadata/declaration.txt'')])
      else None)"
  unfolding build_manifest_def optional_fields_def base_fields_def Let_def
    map_of_if_dict_set map_of_dict_set
  by simp

lemma manifest_lyrics_ref:
  "map_of (build_manifest opts now) ''lyrics_ref'' =
     (if given (lyrics_path opts) then Some (JString ''metadata/lyrics.txt'') else None)"
  unfolding build_manifest_def optional_fields_def base_fields_def Let_def
    map_of_if_dict_set map_of_dict_set
  by simp

lemma manifest_prompt_refs:
  "map_of (build_manifest opts now) ''prompt_refs'' =
     (if given (prompt_path opts) \<or> given (negative_prompt_path opts)
      then Some (prompt_refs_value opts) else None)"
  unfolding build_manifest_def optional_fields_def base_fields_def Let_def
    map_of_if_dict_set map_of_dict_set
    prompt_refs_value_def
  by simp

lemma manifest_public_attestation:
  "map_of (build_manifest opts now) ''public_attestation'' =
     (if urls opts \<noteq> []
      then Some (JObject [(''urls'', JArray (map JString (urls opts))),
                          (''notes'', JString [])])
      else None)"
  unfolding build_manifest_def optional_fields_def base_fields_def Let_def
    map_of_if_dict_set map_of_dict_set
  by simp

lemma manifest_stems_included:
  "map_of (build_manifest opts now) ''stems_included'' = Some (JBool (given (stems_dir opts)))"
  unfolding build_manifest_def optional_fields_def base_fields_def Let_def
    map_of_if_dict_set map_of_dict_set
  by simp

text \<open>
  C2, as the code has it.  In the manifest, \<open>persona_ref\<close>, \<open>declaration\<close> and
  \<open>lyrics_ref\<close> are present exactly when their path was given, \<open>public_attestation\<close>
  exactly when a URL was given, each with its fixed value; \<open>prompt_refs\<close> is present
  exactly when the prompt or the negative prompt was given, and then it holds both
  keys, the one of a prompt that was not given with the empty string;
  \<open>stems_included\<close> is always present.
\<close>

theorem build_manifest_optional_fields:
  "map_of (build_manifest opts now) ''persona_ref'' =
     (if given (persona_path opts) then Some (JString ''metadata/persona.txt'') else None) \<and>
   map_of (build_manifest opts now) ''declaration'' =
     (if given (declaration_path opts)
      then Some (JObject [(''type'', JString ''Creator-Declared''),
                          (''text_ref'', JString ''metadata/declaration.txt'')])
      else None) \<and>
   map_of (build_manifest opts now) ''lyrics_ref'' =
     (if given (lyrics_path opts) then Some (JString ''metadata/lyrics.txt'') else None) \<and>
   map_of (build_manifest opts now) ''prompt_refs'' =
     (if given (prompt_path opts) \<or> given (negative_prompt_path opts)
      then Some (prompt_refs_value opts) else None) \<and>
   map_of (build_manifest opts now) ''public_attestation'' =
     (if urls opts \<noteq> []
      then Some (JObject [(''urls'', JArray (map JString (urls opts))),
                          (''notes'', JString [])])
      else None) \<and>
   map_of (build_manifest opts now) ''stems_included'' = Some (JBool (given (stems_dir opts)))"
  by (intro conjI manifest_persona_ref manifest_declaration manifest_lyrics_ref
      manifest_prompt_refs manifest_public_attestation manifest_stems_included)

theorem build_manifest_optional_fields_witness:
  "map_of (build_manifest prompt_only_options example_now) ''persona_ref'' = None \<and>
   map_of (build_manifest prompt_only_options example_now) ''declaration'' = None \<and>
   map_of (build_manifest prompt_only_options example_now) ''lyrics_ref'' = None \<and>
   map_of (build_manifest prompt_only_options example_now) ''prompt_refs'' =
     Some (JObject [(''prompt'', JString ''metadata/prompt/prompt.txt''),
                    (''negative_prompt'', JString [])]) \<and>
   map_of (build_manifest prompt_only_options example_now) ''public_attestation'' = None \<and>
   map_of (build_manifest prompt_only_options example_now) ''stems_included'' =
     Some (JBool False)"
  using build_manifest_optional_fields [of prompt_only_options example_now]
  by (simp add: prompt_only_options_def example_options_def given_def prompt_refs_value_def)

text \<open>
  C2 as the specification words it fails: with a prompt and no negative prompt, the
  manifest holds a \<open>negative_prompt\<close> reference, and it is the empty string.
\<close>

theorem build_manifest_placeholder_counterexample:
  "negative_prompt_path prompt_only_options = None \<and>
   dict_get (build_manifest prompt_only_options example_now) ''prompt_refs'' (JObject []) =
     JObject [(''prompt'', JString ''metadata/prompt/prompt.txt''),
              (''negative_prompt'', JString [])]"
  by code_simp

section \<open>Hashing a file\<close>

text \<open>Reading in chunks feeds the hash the whole file.\<close>

lemma sha256_chunks_eq: "sha256_chunks lib h rest = sha256_hex lib (h @ rest)"
proof (induction lib h rest rule: sha256_chunks.induct)
  case (1 lib h rest)
  show ?case
  proof (cases "take (1024 * 1024) rest = []")
    case True
    then have "rest = []" by (cases rest) simp_all
    then show ?thesis by (simp add: sha256_chunks.simps [of lib h "[]"])
  next
    case False
    then have "sha256_chunks lib h rest =
                 sha256_chunks lib (h @ take (1024 * 1024) rest) (drop (1024 * 1024) rest)"
      by (simp add: sha256_chunks.simps [of lib h rest] Let_def)
    also have "\<dots> = sha256_hex lib ((h @ take (1024 * 1024) rest) @ drop (1024 * 1024) rest)"
      using False by (intro "1.IH") simp_all
    finally show ?thesis by simp
  qed
qed

lemma sha256_file_read [code]:
  "sha256_file lib fs p =
     (case read_bytes fs p of Inl e \<Rightarrow> Inl e | Inr b \<Rightarrow> Inr (sha256_hex lib b))"
  by (simp add: sha256_file_def sha256_chunks_eq split: sum.splits)

section \<open>The steps of a conversion\<close>

lemma and_then_Inr:
  "and_then m f = Inr y \<longleftrightarrow> (\<exists>x. m = Inr x \<and> f x = Inr y)"
  by (cases m) (simp_all add: and_then_def)

lemma convert_aifm_Inr:
  assumes "convert_aifm lib fs now opts = Inr (out, zf)"
  shows "\<exists>audio_zip_path stems_files checksums_text readme_text.
    check_inputs fs opts = None \<and>
    output_path (out_path opts) = Inr out \<and>
    normalize_zip_path [''payload'', ''audio'', ''main.'' @ audio_ext (audio_path opts)]
      = Inr audio_zip_path \<and>
    collect_stems fs (stems_dir opts) = Inr stems_files \<and>
    make_checksums_payload_only lib fs ((audio_zip_path, audio_path opts) # stems_files)
      = Inr checksums_text \<and>
    build_readme lib (build_manifest opts now) = Inr readme_text \<and>
    create_archive fs out = None \<and>
    write_archive lib fs out opts audio_zip_path stems_files
      (utf8_encode lib (json_dumps lib (JObject (build_manifest opts now))))
      (utf8_encode lib checksums_text) (utf8_encode lib readme_text) = Inr zf"
  using assms unfolding convert_aifm_def Let_def
  by (auto simp add: and_then_Inr split: option.splits)

section \<open>The output path\<close>

lemma path_name_stem_suffix: "path_name p = path_stem p @ path_suffix p"
proof -
  define n where "n = path_name p"
  define i where "i = rfind (CHR ''.'') n"
  show ?thesis
  proof (cases "0 < i \<and> i < int (length n) - 1")
    case True
    then have sfx: "path_suffix p = drop (nat i) n"
      by (simp add: path_suffix_def Let_def n_def i_def)
    have "nat i \<le> length n"
      using True by linarith
    then have "length n - length (drop (nat i) n) = nat i"
      by simp
    then show ?thesis
      by (simp add: path_stem_def sfx flip: n_def)
  next
    case False
    then have "path_suffix p = []"
      by (auto simp add: path_suffix_def Let_def n_def i_def)
    then show ?thesis
      by (simp add: path_stem_def)
  qed
qed

lemma output_path_eq:
  "output_path out =
     (if lower (path_suffix out) = ''.aifm'' then Inr out
      else if path_name out = []
        then Inl (Raised ValueError)
      else Inr (Path (anchor out) (butlast (tail out) @ [path_stem out @ ''.aifm''])))"
  unfolding output_path_def with_suffix_def Let_def path_stem_def
  by (auto simp: path_suffix_def Let_def)

text \<open>
  C8, as the code has it.  A path whose suffix is \<open>.aifm\<close> in any letter case is used
  as it is.  Otherwise the suffix of its last component is replaced by \<open>.aifm\<close>: the
  new name is the stem followed by \<open>.aifm\<close>, which appends \<open>.aifm\<close> only to a name
  without suffix; a path without a last component is refused with a \<open>ValueError\<close>.  A
  conversion that succeeds has written the archive at that path, and a conversion whose
  inputs are there raises what the output path raises.
\<close>

theorem convert_aifm_output_path:
  "output_path out =
     (if lower (path_suffix out) = ''.aifm'' then Inr out
      else if path_name out = []
        then Inl (Raised ValueError)
      else Inr (Path (anchor out) (butlast (tail out) @ [path_stem out @ ''.aifm'']))) \<and>
   path_name out = path_stem out @ path_suffix out \<and>
   (convert_aifm lib fs now opts = Inr (written, zf) \<longrightarrow>
      output_path (out_path opts) = Inr written) \<and>
   (check_inputs fs opts = None \<and> output_path (out_path opts) = Inl e \<longrightarrow>
      convert_aifm lib fs now opts = Inl e)"
proof (intro conjI impI)
  show "output_path out =
     (if lower (path_suffix out) = ''.aifm'' then Inr out
      else if path_name out = []
        then Inl (Raised ValueError)
      else Inr (Path (anchor out) (butlast (tail out) @ [path_stem out @ ''.aifm''])))"
    by (rule output_path_eq)
  show "path_name out = path_stem out @ path_suffix out"
    by (rule path_name_stem_suffix)
next
  assume "convert_aifm lib fs now opts = Inr (written, zf)"
  from convert_aifm_Inr [OF this] show "output_path (out_path opts) = Inr written"
    by blast
next
  assume "check_inputs fs opts = None \<and> output_path (out_path opts) = Inl e"
  then show "convert_aifm lib fs now opts = Inl e"
    by (simp add: convert_aifm_def and_then_def)
qed

theorem convert_aifm_output_path_witness:
  "output_path (Path ''/'' [''out'', ''song.v2.zip'']) =
     Inr (Path ''/'' [''out'', ''song.v2.aifm'']) \<and>
   ''song.v2.zip'' = ''song.v2'' @ ''.zip'' \<and>
   (\<exists>zf. convert_aifm toy_library example_fs example_now stems_options =
           Inr (Path ''/'' [''out'', ''song.aifm''], zf)) \<and>
   output_path (out_path stems_options) = Inr (Path ''/'' [''out'', ''song.aifm'']) \<and>
   check_inputs example_fs (example_options\<lparr>out_path := Path ''/'' []\<rparr>) = None \<and>
   convert_aifm toy_library example_fs example_now (example_options\<lparr>out_path := Path ''/'' []\<rparr>)
     = Inl (Raised ValueError)"
proof -
  let ?o = "Path ''/'' [''out'', ''song.v2.zip'']"
  let ?bad = "example_options\<lparr>out_path := Path ''/'' []\<rparr>"
  have ev: "lower (path_suffix ?o) \<noteq> ''.aifm''" "path_name ?o \<noteq> []"
    "path_stem ?o = ''song.v2''" "path_suffix ?o = ''.zip''" "path_name ?o = ''song.v2.zip''"
    by code_simp+
  have run: "map_sum id fst (convert_aifm toy_library example_fs example_now stems_options) =
               Inr (Path ''/'' [''out'', ''song.aifm''])"
    by code_simp
  then obtain zf where
    conv: "convert_aifm toy_library example_fs example_now stems_options =
             Inr (Path ''/'' [''out'', ''song.aifm''], zf)"
    by (cases "convert_aifm toy_library example_fs example_now stems_options") auto
  have chk: "check_inputs example_fs ?bad = None"
    by code_simp
  have bad: "output_path (out_path ?bad) = Inl (Raised ValueError)"
    by code_simp
  note thm1 = convert_aifm_output_path
    [of ?o toy_library example_fs example_now stems_options "Path ''/'' [''out'', ''song.aifm'']" zf]
  note thm2 = convert_aifm_output_path
    [of ?o toy_library example_fs example_now ?bad _ _ "Raised ValueError"]
  show ?thesis
    using thm1 thm2 ev conv chk bad by auto
qed

text \<open>
  C8 as the specification words it fails: an output path with another extension does
  not get \<open>.aifm\<close> appended.  For \<open>/out/song.zip\<close> the archive is written at
  \<open>/out/song.aifm\<close>, not at \<open>/out/song.zip.aifm\<close>.
\<close>

theorem convert_aifm_replaces_suffix_counterexample:
  "out_path example_options = Path ''/'' [''out'', ''song.zip''] \<and>
   written_at (convert_aifm toy_library example_fs example_now example_options) =
     Some (Path ''/'' [''out'', ''song.aifm''])"
  by code_simp

section \<open>Path normalisation\<close>


lemma split_on_nonempty [simp]: "split_on c s \<noteq> []"
  by (induction s) (auto split: list.splits)

lemma split_on_no_sep: "w \<in> set (split_on c s) \<Longrightarrow> c \<notin> set w"
  by (induction s arbitrary: w) (auto split: list.splits if_splits)

lemma join_Cons: "ws \<noteq> [] \<Longrightarrow> join sep (w # ws) = w @ sep @ join sep ws"
  by (cases ws) simp_all

lemma split_on_join:
  "ws \<noteq> [] \<Longrightarrow> \<forall>w \<in> set ws. c \<notin> set w \<Longrightarrow> split_on c (join [c] ws) = ws"
proof (induction ws)
  case Nil
  then show ?case by simp
next
  case (Cons w ws)
  have step: "split_on c (w @ c # rest) = w # split_on c rest" if "c \<notin> set w" for w rest
    using that by (induction w) (auto split: list.splits)
  have last: "split_on c w = [w]" if "c \<notin> set w" for w
    using that by (induction w) (auto split: list.splits)
  show ?case
  proof (cases ws)
    case Nil
    with Cons.prems show ?thesis by (simp add: last)
  next
    case (Cons v vs)
    with Cons.prems Cons.IH show ?thesis
      by (simp add: step)
  qed
qed

lemma loop_inv_step:
  assumes inv: "loop_inv initial acc" and c: "CHR ''/'' \<notin> set c"
  shows "loop_inv initial (normpath_loop initial acc [c])"
proof -
  from inv obtain k rest where acc: "acc = replicate k ''..'' @ rest"
    and rest: "list_all clean_segment rest" and k: "initial \<noteq> 0 \<longrightarrow> k = 0"
    by (auto simp: loop_inv_def)
  consider (skip) "c = [] \<or> c = ''.''"
    | (plain) "c \<noteq> []" "c \<noteq> ''.''" "c \<noteq> ''..''"
    | (up) "c = ''..''"
    by blast
  then show ?thesis
  proof cases
    case skip
    then show ?thesis using inv by auto
  next
    case plain
    then have "clean_segment c" using c by (simp add: clean_segment_def)
    then have "loop_inv initial (acc @ [c])"
      unfolding loop_inv_def using acc rest k
      by (intro exI [of _ k] exI [of _ "rest @ [c]"]) simp
    with plain show ?thesis by simp
  next
    case up
    show ?thesis
    proof (cases "rest = []")
      case True
      note rest_nil = this
      show ?thesis
      proof (cases "initial = 0")
        case True
        have "acc = [] \<or> last acc = ''..''"
          using acc rest_nil by (cases k) simp_all
        then have "normpath_loop initial acc [c] = acc @ [c]"
          using up True by auto
        moreover have "acc @ [c] = replicate (Suc k) ''..'' @ []"
          using acc rest_nil up by (simp add: replicate_append_same)
        ultimately show ?thesis
          unfolding loop_inv_def using True by (intro exI [of _ "Suc k"] exI [of _ "[]"]) simp
      next
        case False
        then have "acc = []" using acc rest_nil k by simp
        then show ?thesis using up False inv by simp
      qed
    next
      case False
      then have l: "last acc = last rest" and ne: "acc \<noteq> []"
        using acc by simp_all
      have "clean_segment (last rest)"
        using rest False by (simp add: list_all_iff)
      then have "last acc \<noteq> ''..''"
        using l by (auto simp: clean_segment_def)
      then have "normpath_loop initial acc [c] = butlast acc"
        using up ne by simp
      moreover have "butlast acc = replicate k ''..'' @ butlast rest"
        using acc False by (simp add: butlast_append)
      moreover have "list_all clean_segment (butlast rest)"
        using rest by (auto simp: list_all_iff dest: in_set_butlastD)
      ultimately show ?thesis
        unfolding loop_inv_def using k by (intro exI [of _ k] exI [of _ "butlast rest"]) simp
    qed
  qed
qed

lemma normpath_loop_snoc:
  "normpath_loop initial acc (c # cs) = normpath_loop initial (normpath_loop initial acc [c]) cs"
  by simp

lemma loop_inv_loop:
  "loop_inv initial acc \<Longrightarrow> \<forall>c \<in> set cs. CHR ''/'' \<notin> set c \<Longrightarrow>
   loop_inv initial (normpath_loop initial acc cs)"
proof (induction cs arbitrary: acc)
  case Nil
  then show ?case by simp
next
  case (Cons c cs)
  have "loop_inv initial (normpath_loop initial acc [c])"
    using Cons.prems by (intro loop_inv_step) simp_all
  then have "loop_inv initial (normpath_loop initial (normpath_loop initial acc [c]) cs)"
    using Cons.prems by (intro Cons.IH) simp_all
  then show ?case
    by (simp only: normpath_loop_snoc [of initial acc c cs])
qed


lemma join_nonempty_hd:
  assumes "cs \<noteq> []" "hd cs \<noteq> []"
  shows "join sep cs \<noteq> [] \<and> hd (join sep cs) = hd (hd cs)"
proof (cases cs)
  case Nil
  with assms show ?thesis by simp
next
  case (Cons c rest)
  with assms show ?thesis by (cases rest) auto
qed

lemma lstrip_slash_id: "s = [] \<or> hd s \<noteq> CHR ''/'' \<Longrightarrow> lstrip_chars ''/'' s = s"
  by (cases s) (auto simp: lstrip_chars_def)

lemma lstrip_slash_replicate:
  "lstrip_chars ''/'' (replicate n (CHR ''/'') @ s) = lstrip_chars ''/'' s"
  by (induction n) (simp_all add: lstrip_chars_def)

lemma loop_inv_segments:
  assumes "loop_inv initial cs"
  shows "dotdot_then_clean cs" and "\<forall>c \<in> set cs. c \<noteq> [] \<and> CHR ''/'' \<notin> set c"
    and "initial \<noteq> 0 \<Longrightarrow> list_all clean_segment cs"
proof -
  from assms obtain k rest where cs: "cs = replicate k ''..'' @ rest"
    and rest: "list_all clean_segment rest" and k: "initial \<noteq> 0 \<longrightarrow> k = 0"
    by (auto simp: loop_inv_def)
  have "dropWhile (\<lambda>c. c = ''..'') (replicate k ''..'' @ rest) = rest"
  proof (induction k)
    case 0
    show ?case
    proof (cases rest)
      case Nil
      then show ?thesis by simp
    next
      case (Cons c cs')
      then have "c \<noteq> ''..''"
        using rest by (auto simp: clean_segment_def)
      with Cons show ?thesis by simp
    qed
  next
    case (Suc k)
    then show ?case by simp
  qed
  then show "dotdot_then_clean cs"
    using rest by (simp add: dotdot_then_clean_def cs)
  show "\<forall>c \<in> set cs. c \<noteq> [] \<and> CHR ''/'' \<notin> set c"
  proof
    fix c
    assume "c \<in> set cs"
    then consider "c = ''..''" | "c \<in> set rest"
      by (auto simp: cs)
    then show "c \<noteq> [] \<and> CHR ''/'' \<notin> set c"
    proof cases
      case 1
      then show ?thesis by simp
    next
      case 2
      then have "clean_segment c"
        using rest by (simp add: list_all_iff)
      then show ?thesis by (simp add: clean_segment_def)
    qed
  qed
  show "list_all clean_segment cs" if "initial \<noteq> 0"
    using that k rest by (simp add: cs)
qed

lemma lstrip_normpath:
  assumes "path \<noteq> []"
  defines "new \<equiv> normpath_loop (initial_slashes_of path) [] (split_on (CHR ''/'') path)"
  shows "loop_inv (initial_slashes_of path) new"
    and "lstrip_chars ''/'' (normpath path) =
           (if new = [] then (if initial_slashes_of path = 0 then ''.'' else [])
            else join ''/'' new)"
proof -
  let ?i = "initial_slashes_of path"
  have "loop_inv ?i []"
    by (simp add: loop_inv_def)
  then show inv: "loop_inv ?i new"
    unfolding new_def by (intro loop_inv_loop) (auto dest: split_on_no_sep)
  have np: "normpath path =
             (let path2 = (if ?i \<noteq> 0 then replicate ?i (CHR ''/'') @ join ''/'' new
                           else join ''/'' new)
              in if path2 = [] then ''.'' else path2)"
    using assms(1) unfolding normpath_def new_def initial_slashes_of_def Let_def by simp
  show "lstrip_chars ''/'' (normpath path) =
           (if new = [] then (if ?i = 0 then ''.'' else []) else join ''/'' new)"
  proof (cases "new = []")
    case True
    show ?thesis
    proof (cases "?i = 0")
      case True
      with \<open>new = []\<close> show ?thesis
        by (simp add: np lstrip_chars_def)
    next
      case False
      then have "replicate ?i (CHR ''/'') \<noteq> []" by simp
      with False \<open>new = []\<close> show ?thesis
        using lstrip_slash_replicate [of ?i "[]"]
        by (simp add: np Let_def lstrip_chars_def)
    qed
  next
    case False
    have seg: "hd new \<noteq> [] \<and> CHR ''/'' \<notin> set (hd new)"
      using loop_inv_segments(2) [OF inv] False by (cases new) auto
    then have j: "join ''/'' new \<noteq> []" "hd (join ''/'' new) = hd (hd new)"
      using join_nonempty_hd [of new "''/''"] False by auto
    have "hd (hd new) \<noteq> CHR ''/''"
      using seg by (cases "hd new") auto
    then have ls: "lstrip_chars ''/'' (join ''/'' new) = join ''/'' new"
      using j by (intro lstrip_slash_id) simp
    show ?thesis
      using False j ls lstrip_slash_replicate [of ?i "join ''/'' new"]
      by (simp add: np Let_def)
  qed
qed

lemma normalize_zip_path_shape:
  assumes "normalize_zip_path parts = Inr r"
  shows "\<not> prefix ''/'' r \<and>
         (r = [] \<or> r = ''.'' \<or> dotdot_then_clean (split_on (CHR ''/'') r))"
proof -
  from assms obtain a p where parts: "parts = a # p"
    by (cases parts) (auto simp: normalize_zip_path_def posixpath_join_def)
  define path where "path = join_loop a p"
  have r: "r = lstrip_chars ''/'' (normpath path)"
    using assms by (simp add: normalize_zip_path_def posixpath_join_def parts path_def)
  show ?thesis
  proof (cases "path = []")
    case True
    then show ?thesis by (simp add: r normpath_def lstrip_chars_def)
  next
    case False
    define new where "new = normpath_loop (initial_slashes_of path) [] (split_on (CHR ''/'') path)"
    note inv = lstrip_normpath(1) [OF False, folded new_def]
    note eq = lstrip_normpath(2) [OF False, folded new_def]
    show ?thesis
    proof (cases "new = []")
      case True
      then show ?thesis using eq by (auto simp: r)
    next
      case ne: False
      have segs: "\<forall>c \<in> set new. c \<noteq> [] \<and> CHR ''/'' \<notin> set c"
        by (rule loop_inv_segments(2) [OF inv])
      then have sp: "split_on (CHR ''/'') (join ''/'' new) = new"
        using ne by (intro split_on_join) auto
      have "hd new \<noteq> []" "CHR ''/'' \<notin> set (hd new)"
        using segs ne by (cases new; simp)+
      then have "hd (join ''/'' new) \<noteq> CHR ''/''" "join ''/'' new \<noteq> []"
        using join_nonempty_hd [of new "''/''"] ne by (cases "hd new"; auto)+
      then have "\<not> prefix ''/'' (join ''/'' new)"
        by (cases "join ''/'' new") auto
      then show ?thesis
        using eq ne sp loop_inv_segments(1) [OF inv] by (simp add: r)
    qed
  qed
qed


lemma normpath_loop_subset: "set (normpath_loop i acc cs) \<subseteq> set acc \<union> set cs"
proof (induction cs arbitrary: acc)
  case Nil
  show ?case by simp
next
  case (Cons c cs)
  have "set (normpath_loop i acc [c]) \<subseteq> set acc \<union> {c}"
    by (auto dest: in_set_butlastD)
  moreover have "set (normpath_loop i (normpath_loop i acc [c]) cs)
                   \<subseteq> set (normpath_loop i acc [c]) \<union> set cs"
    by (rule Cons.IH)
  ultimately show ?case
    unfolding normpath_loop_snoc [of i acc c cs] by auto
qed

lemma split_on_append_sep:
  "split_on c (x @ c # y) = split_on c x @ split_on c y"
  by (induction x) (auto split: list.splits)

lemma split_on_append_after_sep:
  assumes "x = [] \<or> suffix [c] x"
  shows "set (split_on c (x @ y)) \<subseteq> set (split_on c x) \<union> set (split_on c y)"
proof (cases "x = []")
  case True
  then show ?thesis by auto
next
  case False
  with assms obtain q where "x = q @ [c]"
    by (auto simp: suffix_def)
  then show ?thesis
    using split_on_append_sep [of c q y] split_on_append_sep [of c q "[]"] by auto
qed

lemma join_loop_segments:
  "set (split_on (CHR ''/'') (join_loop path p))
     \<subseteq> set (split_on (CHR ''/'') path) \<union> (\<Union>b \<in> set p. set (split_on (CHR ''/'') b))"
proof (induction p arbitrary: path)
  case Nil
  show ?case by simp
next
  case (Cons b p)
  define nxt where "nxt = (if prefix ''/'' b then b
               else if path = [] \<or> suffix ''/'' path then path @ b
               else path @ ''/'' @ b)"
  define S where "S = (\<lambda>s. set (split_on (CHR ''/'') s))"
  have step: "join_loop path (b # p) = join_loop nxt p"
    by (simp add: nxt_def)
  have "S (path @ b) \<subseteq> S path \<union> S b" if "path = [] \<or> suffix ''/'' path"
    using split_on_append_after_sep [of path "CHR ''/''" b] that by (simp add: S_def)
  moreover have "S (path @ ''/'' @ b) \<subseteq> S path \<union> S b"
    using split_on_append_sep [of "CHR ''/''" path b] by (simp add: S_def)
  ultimately have one: "S nxt \<subseteq> S path \<union> S b"
    unfolding nxt_def by (simp only: split: if_splits) blast
  have rest: "S (join_loop nxt p) \<subseteq> S nxt \<union> (\<Union>b \<in> set p. S b)"
    unfolding S_def by (rule Cons.IH)
  have "S (join_loop nxt p) \<subseteq> S path \<union> (S b \<union> (\<Union>b \<in> set p. S b))"
    using one rest by blast
  then show ?case
    unfolding step by (simp add: S_def del: split_on.simps)
qed

lemma normalize_zip_path_no_dotdot:
  assumes "normalize_zip_path parts = Inr r"
    and "\<forall>s \<in> set parts. ''..'' \<notin> set (split_on (CHR ''/'') s)"
  shows "''..'' \<notin> set (split_on (CHR ''/'') r)"
proof -
  from assms obtain a p where parts: "parts = a # p"
    by (cases parts) (auto simp: normalize_zip_path_def posixpath_join_def)
  define path where "path = join_loop a p"
  have r: "r = lstrip_chars ''/'' (normpath path)"
    using assms by (simp add: normalize_zip_path_def posixpath_join_def parts path_def)
  have comps: "''..'' \<notin> set (split_on (CHR ''/'') path)"
    using join_loop_segments [of a p] assms(2) unfolding path_def parts by auto
  show ?thesis
  proof (cases "path = []")
    case True
    then show ?thesis by (simp add: r normpath_def lstrip_chars_def)
  next
    case False
    define new where "new = normpath_loop (initial_slashes_of path) [] (split_on (CHR ''/'') path)"
    note inv = lstrip_normpath(1) [OF False, folded new_def]
    note eq = lstrip_normpath(2) [OF False, folded new_def]
    show ?thesis
    proof (cases "new = []")
      case True
      then show ?thesis using eq by (auto simp: r)
    next
      case ne: False
      have "\<forall>c \<in> set new. c \<noteq> [] \<and> CHR ''/'' \<notin> set c"
        by (rule loop_inv_segments(2) [OF inv])
      then have sp: "split_on (CHR ''/'') (join ''/'' new) = new"
        using ne by (intro split_on_join) auto
      have "set new \<subseteq> set (split_on (CHR ''/'') path)"
        using normpath_loop_subset [of "initial_slashes_of path" "[]" "split_on (CHR ''/'') path"]
        by (simp add: new_def)
      then show ?thesis
        using comps eq ne sp by (auto simp: r)
    qed
  qed
qed

lemma normpath_loop_clean:
  "list_all clean_segment cs \<Longrightarrow> normpath_loop i acc cs = acc @ cs"
  by (induction cs arbitrary: acc) (auto simp: clean_segment_def)

lemma normpath_join_clean:
  assumes "list_all clean_segment cs" "cs \<noteq> []"
  shows "lstrip_chars ''/'' (normpath (join ''/'' cs)) = join ''/'' cs"
proof -
  let ?path = "join ''/'' cs"
  have segs: "\<forall>c \<in> set cs. CHR ''/'' \<notin> set c"
    using assms(1) by (auto simp: list_all_iff clean_segment_def)
  have hd: "hd cs \<noteq> []" "CHR ''/'' \<notin> set (hd cs)"
    using assms by (cases cs; simp add: clean_segment_def)+
  then have j: "?path \<noteq> []" "hd ?path \<noteq> CHR ''/''"
    using join_nonempty_hd [of cs "''/''"] assms(2) by (cases "hd cs"; auto)+
  then have i0: "initial_slashes_of ?path = 0"
    by (cases ?path) (auto simp: initial_slashes_of_def)
  have sp: "split_on (CHR ''/'') ?path = cs"
    using assms(2) segs by (intro split_on_join) auto
  have "normpath_loop 0 [] (split_on (CHR ''/'') ?path) = cs"
    by (simp add: sp normpath_loop_clean [OF assms(1)])
  then show ?thesis
    using lstrip_normpath(2) [OF j(1)] assms(2) by (simp add: i0)
qed

lemma join_loop_three:
  assumes "clean_segment a" "clean_segment b" "rel \<noteq> []" "hd rel \<noteq> CHR ''/''"
  shows "join_loop a [b, rel] = a @ ''/'' @ b @ ''/'' @ rel"
proof -
  have "\<not> prefix ''/'' b" "\<not> suffix ''/'' a" "a \<noteq> []"
    using assms(1,2) by (auto simp: clean_segment_def prefix_def suffix_def)
  moreover have "\<not> prefix ''/'' rel"
    using assms(3,4) by (cases rel) auto
  moreover have "\<not> suffix ''/'' (a @ ''/'' @ b)"
  proof
    assume "suffix ''/'' (a @ ''/'' @ b)"
    then obtain zs where "a @ ''/'' @ b = zs @ ''/''"
      by (auto simp: suffix_def)
    then have "last (a @ ''/'' @ b) = last (zs @ ''/'')"
      by (rule arg_cong)
    then have "last (a @ ''/'' @ b) = CHR ''/''"
      by simp
    moreover have "b \<noteq> []" using assms(2) by (simp add: clean_segment_def)
    ultimately have "last b = CHR ''/''" by simp
    then show False using assms(2) \<open>b \<noteq> []\<close> last_in_set [of b]
      by (auto simp: clean_segment_def)
  qed
  ultimately show ?thesis by simp
qed

lemma normalize_zip_path_under:
  assumes "clean_segment a" "clean_segment b" "list_all clean_segment cs" "cs \<noteq> []"
  shows "normalize_zip_path [a, b, join ''/'' cs] = Inr (join ''/'' (a # b # cs))"
proof -
  have hd: "hd cs \<noteq> []" "CHR ''/'' \<notin> set (hd cs)"
    using assms(3,4) by (cases cs; simp add: clean_segment_def)+
  then have j: "join ''/'' cs \<noteq> []" "hd (join ''/'' cs) \<noteq> CHR ''/''"
    using join_nonempty_hd [of cs "''/''"] assms(4) by (cases "hd cs"; auto)+
  have jl: "join_loop a [b, join ''/'' cs] = join ''/'' (a # b # cs)"
    using join_loop_three [OF assms(1,2) j] assms(4) by (simp add: join_Cons)
  have "list_all clean_segment (a # b # cs)"
    using assms by simp
  then have "lstrip_chars ''/'' (normpath (join ''/'' (a # b # cs))) = join ''/'' (a # b # cs)"
    by (intro normpath_join_clean) simp_all
  moreover have "posixpath_join [a, b, join ''/'' cs] = Inr (join ''/'' (a # b # cs))"
    unfolding posixpath_join_def using jl by (simp only: list.case)
  ultimately show ?thesis
    unfolding normalize_zip_path_def by (simp only: sum.case)
qed

text \<open>
  C7, as the code has it.  Without segments \<open>normalize_zip_path\<close> raises a
  \<open>TypeError\<close>.  With segments it returns a path that does not start with a slash and
  that is empty (the join was a root), or the single segment \<open>.\<close> (nothing was left
  of the join), or a sequence of non-empty segments separated by single slashes, none
  of them \<open>.\<close>, in which \<open>..\<close> occurs only as a leading run.  When no given
  segment has a \<open>..\<close> component, none is left in the result.
\<close>

theorem normalize_zip_path_result:
  "(parts = [] \<longrightarrow> normalize_zip_path parts = Inl (Raised TypeError)) \<and>
   (parts \<noteq> [] \<longrightarrow>
      (\<exists>r. normalize_zip_path parts = Inr r \<and> \<not> prefix ''/'' r \<and>
           (r = [] \<or> r = ''.'' \<or> dotdot_then_clean (split_on (CHR ''/'') r)) \<and>
           ((\<forall>s \<in> set parts. ''..'' \<notin> set (split_on (CHR ''/'') s)) \<longrightarrow>
              ''..'' \<notin> set (split_on (CHR ''/'') r))))"
proof (intro conjI impI)
  assume "parts = []"
  then show "normalize_zip_path parts = Inl (Raised TypeError)"
    by (simp add: normalize_zip_path_def posixpath_join_def)
next
  assume "parts \<noteq> []"
  then obtain r where r: "normalize_zip_path parts = Inr r"
    by (cases parts) (simp_all add: normalize_zip_path_def posixpath_join_def)
  show "\<exists>r. normalize_zip_path parts = Inr r \<and> \<not> prefix ''/'' r \<and>
           (r = [] \<or> r = ''.'' \<or> dotdot_then_clean (split_on (CHR ''/'') r)) \<and>
           ((\<forall>s \<in> set parts. ''..'' \<notin> set (split_on (CHR ''/'') s)) \<longrightarrow>
              ''..'' \<notin> set (split_on (CHR ''/'') r))"
    using r normalize_zip_path_shape [OF r] normalize_zip_path_no_dotdot [OF r]
    by (intro exI [of _ r]) blast
qed

theorem normalize_zip_path_result_witness:
  "normalize_zip_path [''a'', ''b/../../../c'', ''./d//e/''] = Inr ''../c/d/e'' \<and>
   dotdot_then_clean [''..'', ''c'', ''d'', ''e''] \<and>
   normalize_zip_path [''payload'', ''stems'', ''/x/./y''] = Inr ''x/y'' \<and>
   ''..'' \<notin> set (split_on (CHR ''/'') ''x/y'') \<and>
   normalize_zip_path [] = Inl (Raised TypeError)"
proof -
  let ?p = "[''a'', ''b/../../../c'', ''./d//e/'']"
  let ?q = "[''payload'', ''stems'', ''/x/./y'']"
  have p: "normalize_zip_path ?p = Inr ''../c/d/e''"
    and q: "normalize_zip_path ?q = Inr ''x/y''"
    by code_simp+
  have sp: "split_on (CHR ''/'') ''../c/d/e'' = [''..'', ''c'', ''d'', ''e'']"
    by code_simp
  have nd: "\<forall>s \<in> set ?q. ''..'' \<notin> set (split_on (CHR ''/'') s)"
    by code_simp
  show ?thesis
    using normalize_zip_path_result [of ?p] normalize_zip_path_result [of ?q]
      normalize_zip_path_result [of "[]"] p q sp nd
    by auto
qed

text \<open>
  C7 as the specification words it fails: a leading \<open>..\<close> of a relative join is
  kept, so the result can leave the archive root, and a join that normalises to
  nothing gives the segment \<open>.\<close>.
\<close>

theorem normalize_zip_path_dotdot_counterexample:
  "normalize_zip_path [''..'', ''a''] = Inr ''../a'' \<and>
   normalize_zip_path [''a'', ''..''] = Inr ''.''"
  by code_simp

section \<open>Rendering and parsing the ledger\<close>


lemma read_bytes_is_file:
  "is_file fs p \<Longrightarrow> read_bytes fs p = Inr (file_bytes fs p)"
  by (auto simp: is_file_def read_bytes_def file_bytes_def split: option.splits node.splits)

lemma sha256_file_is_file:
  "is_file fs p \<Longrightarrow> sha256_file lib fs p = Inr (sha256_hex lib (file_bytes fs p))"
  by (simp add: sha256_file_read read_bytes_is_file)

lemma checksum_lines_files:
  "list_all (\<lambda>e. is_file fs (snd e)) es \<Longrightarrow>
   checksum_lines lib fs lines es = Inr (lines @ map (ledger_record lib fs) es)"
proof (induction es arbitrary: lines)
  case Nil
  show ?case by simp
next
  case (Cons e es)
  obtain zp lp where e: "e = (zp, lp)" by (cases e)
  with Cons.prems have "is_file fs lp" and rest: "list_all (\<lambda>e. is_file fs (snd e)) es"
    by simp_all
  then show ?case
    using Cons.IH [OF rest, of "lines @ [ledger_record lib fs e]"]
    by (simp add: e sha256_file_is_file and_then_def ledger_record_def)
qed

lemma join_lines:
  "rs \<noteq> [] \<Longrightarrow> join [LF] rs @ [LF] = concat (map (\<lambda>r. r @ [LF]) rs)"
proof (induction rs)
  case Nil
  then show ?case by simp
next
  case (Cons r rs)
  then show ?case by (cases rs) simp_all
qed

lemma make_checksums_text:
  assumes "list_all (\<lambda>e. is_file fs (snd e)) payload_entries"
  shows "make_checksums_payload_only lib fs payload_entries =
           Inr (join [LF] (map (ledger_record lib fs) (sort_key fst payload_entries)) @ [LF])"
proof -
  have "list_all (\<lambda>e. is_file fs (snd e)) (sort_key fst payload_entries)"
    using assms by (simp add: list_all_iff)
  then show ?thesis
    by (simp add: make_checksums_payload_only_def checksum_lines_files and_then_def)
qed

lemma splitlines_record:
  "no_linebreak r \<Longrightarrow> splitlines (r @ LF # rest) = r # splitlines rest"
proof (induction r)
  case Nil
  show ?case by (simp add: LF_def CR_def linebreak_def)
next
  case (Cons c r)
  then have c: "\<not> linebreak c" and r: "no_linebreak r"
    by (simp_all add: no_linebreak_def)
  from c have "c \<noteq> CR"
    by (auto simp: linebreak_def CR_def)
  with c show ?case
    using Cons.IH [OF r] by simp
qed

lemma splitlines_records:
  "list_all no_linebreak rs \<Longrightarrow> splitlines (concat (map (\<lambda>r. r @ [LF]) rs)) = rs"
  by (induction rs) (simp_all add: splitlines_record)

lemma strip_id:
  assumes "s \<noteq> []" "\<not> isspace (hd s)" "\<not> isspace (last s)"
  shows "strip s = s"
proof -
  have "dropWhile isspace s = s"
    using assms(1,2) by (cases s) simp_all
  moreover have "dropWhile isspace (rev s) = rev s"
    using assms(1,3) by (cases "rev s") (simp_all add: last_rev [symmetric] hd_rev)
  ultimately show ?thesis
    by (simp add: strip_def)
qed

lemma split_first_two_spaces:
  "CHR '' '' \<notin> set d \<Longrightarrow> split_first ''  '' (d @ ''  '' @ p) = Some (d, p)"
  by (induction d) auto

lemma linebreak_isspace: "linebreak c \<Longrightarrow> isspace c"
  by (auto simp: linebreak_def isspace_def)

lemma space_isspace: "isspace (CHR '' '')"
  by (simp add: isspace_def)

lemma ledger_line_record:
  assumes d: "d \<noteq> []" "no_space d"
    and p: "p \<noteq> []" "\<not> isspace (hd p)" "\<not> isspace (last p)"
  shows "ledger_line (d @ ''  '' @ p) = Some (d, p)"
proof -
  let ?r = "d @ ''  '' @ p"
  have hd_d: "\<not> isspace (hd d)" and last_d: "\<not> isspace (last d)"
    using d by (auto simp: no_space_def list_all_iff)
  have "CHR '' '' \<notin> set d"
    using d(2) space_isspace by (auto simp: no_space_def list_all_iff)
  then have sf: "split_first ''  '' ?r = Some (d, p)"
    by (rule split_first_two_spaces)
  have "hd ?r = hd d" "last ?r = last p"
    using d(1) p(1) by simp_all
  then have "strip ?r = ?r"
    using hd_d p(3) d(1) by (intro strip_id) simp_all
  moreover have "strip d = d" "strip p = p"
    using d(1) hd_d last_d p by (simp_all add: strip_id)
  ultimately show ?thesis
    using sf d(1) by (simp add: ledger_line_def Let_def del: split_first.simps)
qed


lemma map_filter_map_Some:
  "\<forall>x \<in> set xs. f (g x) = Some (h x) \<Longrightarrow> List.map_filter f (map g xs) = map h xs"
  by (induction xs) (simp_all add: List.map_filter_simps)

lemma no_space_no_linebreak: "no_space s \<Longrightarrow> no_linebreak s"
  by (auto simp: no_space_def no_linebreak_def list_all_iff dest: linebreak_isspace)

lemma ledger_record_no_linebreak:
  assumes "no_space (sha256_hex lib (file_bytes fs (snd e)))" "no_linebreak (fst e)"
  shows "no_linebreak (ledger_record lib fs e)"
proof -
  have "no_linebreak ''  ''"
    by (simp add: no_linebreak_def linebreak_def)
  with assms no_space_no_linebreak show ?thesis
    by (auto simp add: ledger_record_def no_linebreak_def)
qed

lemma parse_rendered_ledger:
  assumes files: "list_all (\<lambda>e. is_file fs (snd e)) entries"
    and paths: "list_all (\<lambda>e. path_round_trips (fst e)) entries"
    and digests:
      "list_all (\<lambda>e. digest_round_trips (sha256_hex lib (file_bytes fs (snd e)))) entries"
  shows "\<exists>text. make_checksums_payload_only lib fs entries = Inr text \<and>
           parse_sha256sum text = map (ledger_entry lib fs) (sort_key fst entries)"
proof -
  let ?sorted = "sort_key fst entries"
  let ?records = "map (ledger_record lib fs) ?sorted"
  let ?text = "join [LF] ?records @ [LF]"
  have rendered: "make_checksums_payload_only lib fs entries = Inr ?text"
    by (rule make_checksums_text [OF files])
  have each: "path_round_trips (fst e) \<and>
              digest_round_trips (sha256_hex lib (file_bytes fs (snd e)))"
    if "e \<in> set ?sorted" for e
    using that paths digests by (simp add: list_all_iff)
  have "parse_sha256sum ?text = map (ledger_entry lib fs) ?sorted"
  proof (cases "entries = []")
    case True
    have "parse_sha256sum [LF] = []"
      by code_simp
    with True show ?thesis by simp
  next
    case False
    then have "length ?records \<noteq> 0"
      by simp
    then have "?records \<noteq> []"
      by (simp only: length_0_conv not_False_eq_True)
    then have "?text = concat (map (\<lambda>r. r @ [LF]) ?records)"
      by (rule join_lines)
    moreover have "list_all no_linebreak ?records"
      using each
      by (auto simp: list_all_iff path_round_trips_def digest_round_trips_def
          intro!: ledger_record_no_linebreak)
    ultimately have "splitlines ?text = ?records"
      by (simp only: splitlines_records)
    moreover have "List.map_filter ledger_line ?records = map (ledger_entry lib fs) ?sorted"
    proof (rule map_filter_map_Some, rule ballI)
      fix e
      assume "e \<in> set ?sorted"
      from each [OF this] show "ledger_line (ledger_record lib fs e) = Some (ledger_entry lib fs e)"
        unfolding ledger_record_def ledger_entry_def path_round_trips_def
          digest_round_trips_def
        by (intro ledger_line_record) simp_all
    qed
    ultimately show ?thesis
      by (simp only: parse_sha256sum_map_filter)
  qed
  with rendered show ?thesis by blast
qed

text \<open>
  C9, as the code has it.  For payload entries whose files can be read, whose paths
  are not empty, hold no line boundary of \<open>splitlines\<close> (line feed, carriage return,
  vertical tab, form feed, file, group and record separator, next line; and, beyond the
  code points that the model covers, the line separator U+2028 and the paragraph
  separator U+2029) and neither
  start nor end with whitespace, and whose digests are not empty and hold no
  whitespace, parsing the rendered ledger gives back exactly the (digest, path) pairs,
  in ascending order of path.
\<close>

theorem render_then_parse_round_trip:
  assumes "list_all (\<lambda>e. is_file fs (snd e)) entries"
    and "list_all (\<lambda>e. path_round_trips (fst e)) entries"
    and "list_all (\<lambda>e. digest_round_trips (sha256_hex lib (file_bytes fs (snd e)))) entries"
  shows "\<exists>text. make_checksums_payload_only lib fs entries = Inr text \<and>
           parse_sha256sum text = map (ledger_entry lib fs) (sort_key fst entries) \<and>
           sorted (map snd (map (ledger_entry lib fs) (sort_key fst entries)))"
proof -
  have "map snd (map (ledger_entry lib fs) (sort_key fst entries)) =
          map fst (sort_key fst entries)"
    by (simp add: ledger_entry_def)
  then have "sorted (map snd (map (ledger_entry lib fs) (sort_key fst entries)))"
    by (simp only: sorted_sort_key)
  with parse_rendered_ledger [OF assms] show ?thesis
    by blast
qed

theorem render_then_parse_round_trip_witness:
  "list_all (\<lambda>e. is_file example_fs (snd e)) example_entries \<and>
   list_all (\<lambda>e. path_round_trips (fst e)) example_entries \<and>
   list_all (\<lambda>e. digest_round_trips (sha256_hex toy_library (file_bytes example_fs (snd e))))
     example_entries \<and>
   (\<exists>text. make_checksums_payload_only toy_library example_fs example_entries = Inr text \<and>
      parse_sha256sum text =
        [(toy_digest ''abc'', ''payload/audio/main.wav''),
         (toy_digest ''vv'', ''payload/stems/vocals.wav'')])"
proof -
  have h1: "list_all (\<lambda>e. is_file example_fs (snd e)) example_entries"
    and h2: "list_all (\<lambda>e. path_round_trips (fst e)) example_entries"
    and h3: "list_all (\<lambda>e. digest_round_trips
                (sha256_hex toy_library (file_bytes example_fs (snd e)))) example_entries"
    by code_simp+
  have v: "map (ledger_entry toy_library example_fs) (sort_key fst example_entries) =
             [(toy_digest ''abc'', ''payload/audio/main.wav''),
              (toy_digest ''vv'', ''payload/stems/vocals.wav'')]"
    by code_simp
  show ?thesis
    using render_then_parse_round_trip [OF h1 h2 h3] h1 h2 h3 v by auto
qed

text \<open>
  C9 as the specification words it fails: a path with a form feed holds no newline and
  no whitespace at either end, yet \<open>splitlines\<close> ends the line at the form feed.  The
  parser returns the path cut there.
\<close>

theorem render_then_parse_form_feed_counterexample:
  "LF \<notin> set (''a'' @ [FF] @ ''b'') \<and>
   \<not> isspace (hd (''a'' @ [FF] @ ''b'')) \<and> \<not> isspace (last (''a'' @ [FF] @ ''b'')) \<and>
   no_space (toy_digest ''abc'') \<and>
   make_checksums_payload_only toy_library example_fs
     [(''a'' @ [FF] @ ''b'', Path ''/'' [''in'', ''song.WAV''])] =
     Inr (toy_digest ''abc'' @ ''  a'' @ [FF] @ ''b'' @ [LF]) \<and>
   parse_sha256sum (toy_digest ''abc'' @ ''  a'' @ [FF] @ ''b'' @ [LF]) =
     [(toy_digest ''abc'', ''a'')]"
  by code_simp

section \<open>Archive paths of a conversion\<close>


lemma lower_char_cases:
  "lower_char c = c \<or>
   (\<exists>n::nat. 97 \<le> n \<and> n \<le> 254 \<and> (of_char (lower_char c) :: nat) = n)"
proof (cases "lower_char c = c")
  case True
  then show ?thesis by simp
next
  case False
  define n where "n = (of_char c :: nat)"
  from False have range: "(0x41 \<le> n \<and> n \<le> 0x5A) \<or> (0xC0 \<le> n \<and> n \<le> 0xDE \<and> n \<noteq> 0xD7)"
    and low: "lower_char c = char_of (n + 0x20)"
    unfolding lower_char_def Let_def n_def by (auto split: if_splits)
  have "(of_char (lower_char c) :: nat) = (n + 0x20) mod 256"
    by (simp add: low)
  also have "\<dots> = n + 0x20"
    using range by auto
  finally show ?thesis
    using range by auto
qed

lemma lower_char_eq_slash: "lower_char c = CHR ''/'' \<Longrightarrow> c = CHR ''/''"
  using lower_char_cases [of c] by auto

lemma lower_char_eq_NUL: "lower_char c = NUL \<Longrightarrow> c = NUL"
  using lower_char_cases [of c] by (auto simp: NUL_def)

lemma lower_keeps_out:
  "CHR ''/'' \<notin> set s \<Longrightarrow> CHR ''/'' \<notin> set (lower s)"
  "NUL \<notin> set s \<Longrightarrow> NUL \<notin> set (lower s)"
  using lower_char_eq_slash lower_char_eq_NUL
  by (metis (no_types, lifting) image_iff list.set_map lower_def)+

lemma path_suffix_subset: "set (path_suffix p) \<subseteq> set (path_name p)"
  by (auto simp: path_suffix_def Let_def dest: in_set_dropD)

lemma audio_ext_chars:
  assumes "CHR ''/'' \<notin> set (path_name p)" "NUL \<notin> set (path_name p)"
  shows "audio_ext p \<noteq> []" "CHR ''/'' \<notin> set (audio_ext p)" "NUL \<notin> set (audio_ext p)"
proof -
  let ?s = "lstrip_chars ''.'' (lower (path_suffix p))"
  have sub: "set ?s \<subseteq> set (lower (path_suffix p))"
    by (auto simp: lstrip_chars_def dest: set_dropWhileD)
  have "CHR ''/'' \<notin> set (path_suffix p)" "NUL \<notin> set (path_suffix p)"
    using assms path_suffix_subset [of p] by auto
  then have "CHR ''/'' \<notin> set ?s" "NUL \<notin> set ?s"
    using sub lower_keeps_out [of "path_suffix p"] by auto
  then show "CHR ''/'' \<notin> set (audio_ext p)" "NUL \<notin> set (audio_ext p)"
    by (auto simp: audio_ext_def Let_def NUL_def)
  show "audio_ext p \<noteq> []"
    by (simp add: audio_ext_def Let_def)
qed

lemma audio_zip_path_eq:
  assumes "CHR ''/'' \<notin> set (path_name p)"
  shows "normalize_zip_path [''payload'', ''audio'', ''main.'' @ audio_ext p] =
           Inr (''payload/audio/main.'' @ audio_ext p)"
proof -
  have sub: "set (lstrip_chars ''.'' (lower (path_suffix p))) \<subseteq> set (lower (path_suffix p))"
    by (auto simp: lstrip_chars_def dest: set_dropWhileD)
  have "CHR ''/'' \<notin> set (path_suffix p)"
    using assms path_suffix_subset [of p] by auto
  then have "CHR ''/'' \<notin> set (lstrip_chars ''.'' (lower (path_suffix p)))"
    using sub lower_keeps_out(1) [of "path_suffix p"] by auto
  then have "CHR ''/'' \<notin> set (audio_ext p)"
    by (auto simp: audio_ext_def Let_def)
  then have "clean_segment (''main.'' @ audio_ext p)"
    by (simp add: clean_segment_def)
  moreover have "clean_segment ''payload''" "clean_segment ''audio''"
    by (simp_all add: clean_segment_def)
  ultimately have "normalize_zip_path [''payload'', ''audio'', join ''/'' [''main.'' @ audio_ext p]]
        = Inr (join ''/'' [''payload'', ''audio'', ''main.'' @ audio_ext p])"
    by (intro normalize_zip_path_under) simp_all
  then show ?thesis by simp
qed


lemma replace_sep_id: "replace_char os_sep ''/'' s = s"
  by (induction s) (simp_all add: replace_char_def os_sep_def)

lemma file_name_clean: "file_name c \<Longrightarrow> clean_segment c"
  by (simp add: file_name_def clean_segment_def)

lemma stems_loop_entries:
  assumes "\<forall>f \<in> set fl. anchor f = anchor dir \<and> strict_prefix (tail dir) (tail f) \<and>
             list_all file_name (drop (length (tail dir)) (tail f))"
  shows "stems_loop fs dir acc fl = Inr (acc @ map (stem_entry dir) fl)"
  using assms
proof (induction fl arbitrary: acc)
  case Nil
  show ?case by simp
next
  case (Cons f fl)
  let ?rel = "drop (length (tail dir)) (tail f)"
  from Cons.prems have a: "anchor f = anchor dir" and sp: "strict_prefix (tail dir) (tail f)"
    and names: "list_all file_name ?rel"
    by simp_all
  from sp have ne: "?rel \<noteq> []"
    by (auto simp: strict_prefix_def prefix_def)
  have rel: "relative_to f dir = Inr (Path [] ?rel)"
    using a sp by (simp add: relative_to_def strict_prefix_def)
  have str: "path_str (Path [] ?rel) = join ''/'' ?rel"
    using ne by (simp add: path_str_def)
  have "list_all clean_segment ?rel"
    using names by (auto simp: list_all_iff intro: file_name_clean)
  then have norm: "normalize_zip_path [''payload'', ''stems'', join ''/'' ?rel] =
                     Inr (join ''/'' (''payload'' # ''stems'' # ?rel))"
    using ne by (intro normalize_zip_path_under) (simp_all add: clean_segment_def)
  have "stems_loop fs dir acc (f # fl) = stems_loop fs dir (acc @ [stem_entry dir f]) fl"
    by (simp add: rel and_then_def str replace_sep_id norm stem_entry_def
        del: join.simps)
  also have "\<dots> = Inr ((acc @ [stem_entry dir f]) @ map (stem_entry dir) fl)"
    using Cons.prems by (intro Cons.IH) simp
  finally show ?case by simp
qed

lemma rglob_member:
  assumes "f \<in> set (rglob fs dir)"
  shows "anchor f = anchor dir" "strict_prefix (tail dir) (tail f)" "f \<in> fst ` set fs"
  using assms by (auto simp: rglob_def below_def)

lemma posix_fs_member:
  "posix_fs fs \<Longrightarrow> f \<in> fst ` set fs \<Longrightarrow> list_all file_name (tail f)"
  by (auto simp: posix_fs_def list_all_iff)

lemma map_of_member: "map_of fs p \<noteq> None \<Longrightarrow> p \<in> fst ` set fs"
  by (auto simp: map_of_eq_None_iff)

lemma iter_files_recursive_set:
  "set (iter_files_recursive fs dir) = {f \<in> set (rglob fs dir). is_file fs f}"
  by (auto simp: iter_files_recursive_def)

lemma distinct_iter_files_recursive: "distinct (iter_files_recursive fs dir)"
  by (simp add: iter_files_recursive_def rglob_def)

lemma collect_stems_entries:
  assumes "posix_fs fs"
  shows "collect_stems fs sd =
           Inr (case sd of None \<Rightarrow> []
                | Some dir \<Rightarrow> map (stem_entry dir) (iter_files_recursive fs dir))"
proof (cases sd)
  case None
  then show ?thesis by (simp add: collect_stems_def)
next
  case (Some dir)
  have "\<forall>f \<in> set (iter_files_recursive fs dir).
          anchor f = anchor dir \<and> strict_prefix (tail dir) (tail f) \<and>
          list_all file_name (drop (length (tail dir)) (tail f))"
  proof
    fix f
    assume "f \<in> set (iter_files_recursive fs dir)"
    then have f: "f \<in> set (rglob fs dir)"
      by (simp add: iter_files_recursive_set)
    from posix_fs_member [OF assms rglob_member(3) [OF f]]
    have "list_all file_name (drop (length (tail dir)) (tail f))"
      by (auto simp: list_all_iff dest: in_set_dropD)
    with rglob_member(1,2) [OF f]
    show "anchor f = anchor dir \<and> strict_prefix (tail dir) (tail f) \<and>
          list_all file_name (drop (length (tail dir)) (tail f))"
      by simp
  qed
  from stems_loop_entries [OF this, of fs "[]"] Some show ?thesis
    by (simp add: collect_stems_def)
qed


lemma filename_stored [simp]: "filename (stored n d) = n"
  by (simp add: stored_def)

lemma failure_stored [simp]: "failure (stored n d) = None"
  by (simp add: stored_def)

lemma content_stored [simp]: "content (stored n d) = d"
  by (simp add: stored_def)

lemma made_dirs_Directory:
  assumes "map_of (made_dirs q) p = Some n"
  shows "n = Directory"
proof -
  from assms have "(p, n) \<in> set (made_dirs q)"
    by (rule map_of_SomeD)
  then show ?thesis
    unfolding made_dirs_def by auto
qed

lemma read_bytes_Inr: "read_bytes fs p = Inr d \<longleftrightarrow> is_file fs p \<and> d = file_bytes fs p"
  by (auto simp: read_bytes_def is_file_def file_bytes_def split: option.splits node.splits)

lemma read_bytes_made_dirs:
  "read_bytes (fs @ made_dirs q) p = Inr d \<longleftrightarrow> read_bytes fs p = Inr d"
proof (cases "map_of fs p")
  case None
  then have "map_of (fs @ made_dirs q) p = map_of (made_dirs q) p"
    by (simp add: map_add_def)
  then show ?thesis
    using None made_dirs_Directory [of q p]
    by (auto simp: read_bytes_def split: option.splits node.splits)
next
  case (Some n)
  then have "map_of (fs @ made_dirs q) p = Some n"
    by (simp add: map_add_def)
  with Some show ?thesis
    by (simp add: read_bytes_def)
qed

text \<open>
  While the archive is written, a source other than the archive reads as it did when
  the conversion began, and the archive reads as what was written so far.
\<close>

lemma read_bytes_while_writing:
  "read_bytes (while_writing lib fs out zf) p = Inr d \<longleftrightarrow>
     (if p = out then d = partial_archive lib zf else read_bytes fs p = Inr d)"
proof (cases "p = out")
  case True
  then show ?thesis
    by (auto simp: while_writing_def read_bytes_def)
next
  case False
  then have "read_bytes (while_writing lib fs out zf) p =
               read_bytes (fs @ made_dirs (parent out)) p"
    by (simp add: while_writing_def read_bytes_def)
  with False show ?thesis
    by (simp add: read_bytes_made_dirs)
qed


lemma takeWhile_no_NUL: "NUL \<notin> set s \<Longrightarrow> takeWhile (\<lambda>c. c \<noteq> NUL) s = s"
  by (induction s) auto

lemma zip_write_bytes_stored:
  "NUL \<notin> set arcname \<Longrightarrow> zip_write_bytes zf arcname d = zf @ [stored arcname d]"
  by (simp add: zip_write_bytes_def ZipInfo_def stored_def takeWhile_no_NUL)

lemma zip_write_file_Inr:
  assumes "zip_write_file lib fs out zf arcname src = Inr zf'" "NUL \<notin> set arcname"
  shows "\<exists>e. zf' = zf @ [e] \<and> filename e = arcname \<and>
             (src \<noteq> out \<longrightarrow> is_file fs src \<and> e = stored arcname (file_bytes fs src))"
proof -
  from assms(1) obtain d where d: "read_bytes (while_writing lib fs out zf) src = Inr d"
    and zf': "zf' = zf @ [(ZipInfo arcname)\<lparr>compress_type := ZIP_DEFLATED, content := d\<rparr>]"
    by (auto simp: zip_write_file_def Let_def and_then_Inr ZipInfo_def)
  have st: "(ZipInfo arcname)\<lparr>compress_type := ZIP_DEFLATED, content := d\<rparr> = stored arcname d"
    using assms(2) by (simp add: ZipInfo_def stored_def takeWhile_no_NUL)
  from d have "if src = out then d = partial_archive lib zf else read_bytes fs src = Inr d"
    by (simp only: read_bytes_while_writing)
  then have "src \<noteq> out \<longrightarrow> is_file fs src \<and> d = file_bytes fs src"
    by (auto simp: read_bytes_Inr split: if_splits)
  with zf' st show ?thesis
    by auto
qed

lemma write_stems_Inr:
  assumes "write_stems lib fs out zf es = Inr zf'" "\<forall>e \<in> set es. NUL \<notin> set (fst e)"
  shows "\<exists>ents. zf' = zf @ ents \<and> map filename ents = map fst es \<and>
           (out \<notin> snd ` set es \<longrightarrow>
              ents = map (\<lambda>e. stored (fst e) (file_bytes fs (snd e))) es)"
  using assms
proof (induction es arbitrary: zf)
  case Nil
  then show ?case by simp
next
  case (Cons e es)
  obtain zp f where e: "e = (zp, f)" by (cases e)
  from Cons.prems(1) obtain zf1 where
    w: "zip_write_file lib fs out zf zp f = Inr zf1" and
    rest: "write_stems lib fs out zf1 es = Inr zf'"
    by (auto simp: e and_then_Inr)
  have "NUL \<notin> set zp"
    using Cons.prems(2) by (simp add: e)
  from zip_write_file_Inr [OF w this] obtain x where
    x: "zf1 = zf @ [x]" "filename x = zp" "f \<noteq> out \<longrightarrow> x = stored zp (file_bytes fs f)"
    by auto
  have "\<forall>e \<in> set es. NUL \<notin> set (fst e)"
    using Cons.prems(2) by simp
  from Cons.IH [OF rest this] obtain ents where
    ents: "zf' = zf1 @ ents" "map filename ents = map fst es"
      "out \<notin> snd ` set es \<longrightarrow> ents = map (\<lambda>e. stored (fst e) (file_bytes fs (snd e))) es"
    by auto
  show ?case
    using x ents by (intro exI [of _ "x # ents"]) (auto simp: e)
qed

lemma write_optional_Inr:
  assumes "write_optional lib fs out zf parts po = Inr zf'"
    and "normalize_zip_path parts = Inr name" "NUL \<notin> set name"
  shows "\<exists>ents. zf' = zf @ ents \<and> map filename ents = (if given po then [name] else []) \<and>
           (po \<noteq> Some out \<longrightarrow> ents = optional_entry fs name po)"
proof (cases po)
  case None
  with assms(1) show ?thesis
    by (simp add: write_optional_def optional_entry_def given_def)
next
  case (Some p)
  with assms(1,2) have "zip_write_file lib fs out zf name p = Inr zf'"
    by (simp add: write_optional_def and_then_def)
  from zip_write_file_Inr [OF this assms(3)] Some show ?thesis
    by (auto simp: optional_entry_def given_def)
qed

lemma fixed_names:
  "normalize_zip_path [''metadata'', ''manifest.json''] = Inr ''metadata/manifest.json''"
  "normalize_zip_path [''metadata'', ''prompt'', ''prompt.txt''] = Inr ''metadata/prompt/prompt.txt''"
  "normalize_zip_path [''metadata'', ''prompt'', ''negative_prompt.txt'']
     = Inr ''metadata/prompt/negative_prompt.txt''"
  "normalize_zip_path [''metadata'', ''lyrics.txt''] = Inr ''metadata/lyrics.txt''"
  "normalize_zip_path [''metadata'', ''persona.txt''] = Inr ''metadata/persona.txt''"
  "normalize_zip_path [''metadata'', ''declaration.txt''] = Inr ''metadata/declaration.txt''"
  "normalize_zip_path [''verification'', ''checksums.sha256'']
     = Inr ''verification/checksums.sha256''"
  by code_simp+

lemma fixed_names_no_NUL:
  "NUL \<notin> set ''metadata/manifest.json''"
  "NUL \<notin> set ''metadata/prompt/prompt.txt''"
  "NUL \<notin> set ''metadata/prompt/negative_prompt.txt''"
  "NUL \<notin> set ''metadata/lyrics.txt''"
  "NUL \<notin> set ''metadata/persona.txt''"
  "NUL \<notin> set ''metadata/declaration.txt''"
  "NUL \<notin> set ''verification/checksums.sha256''"
  "NUL \<notin> set ''README.txt''"
  by (simp_all add: NUL_def)

lemma write_archive_shape:
  assumes w: "write_archive lib fs out opts azp stems mb cb rb = Inr zf"
    and azp: "NUL \<notin> set azp" and st: "\<forall>e \<in> set stems. NUL \<notin> set (fst e)"
  shows "\<exists>a ss os.
           zf = a # ss @ stored ''metadata/manifest.json'' mb # os @
                  [stored ''verification/checksums.sha256'' cb, stored ''README.txt'' rb] \<and>
           filename a = azp \<and> map filename ss = map fst (sort_key fst stems) \<and>
           map filename os = optional_names opts \<and>
           (out \<notin> set (audio_path opts # map snd stems @ optional_sources opts) \<longrightarrow>
              zf = archive_layout fs opts azp stems mb cb rb)"
proof -
  from w obtain zf1 zf2 zf3 zf4 zf5 zf6 zf7 where
    s1: "zip_write_file lib fs out [] azp (audio_path opts) = Inr zf1" and
    s2: "write_stems lib fs out zf1 (sort_key fst stems) = Inr zf2" and
    s3: "write_optional lib fs out (zip_write_bytes zf2 ''metadata/manifest.json'' mb)
           [''metadata'', ''prompt'', ''prompt.txt''] (prompt_path opts) = Inr zf3" and
    s4: "write_optional lib fs out zf3 [''metadata'', ''prompt'', ''negative_prompt.txt'']
           (negative_prompt_path opts) = Inr zf4" and
    s5: "write_optional lib fs out zf4 [''metadata'', ''lyrics.txt''] (lyrics_path opts)
           = Inr zf5" and
    s6: "write_optional lib fs out zf5 [''metadata'', ''persona.txt''] (persona_path opts)
           = Inr zf6" and
    s7: "write_optional lib fs out zf6 [''metadata'', ''declaration.txt'']
           (declaration_path opts) = Inr zf7" and
    s8: "zf = zip_write_bytes (zip_write_bytes zf7 ''verification/checksums.sha256'' cb)
           ''README.txt'' rb"
    unfolding write_archive_def fixed_names and_then_Inr
    by (auto simp only: sum.inject)
  from zip_write_file_Inr [OF s1 azp] obtain a where
    a: "zf1 = [a]" "filename a = azp"
      "audio_path opts \<noteq> out \<longrightarrow> a = stored azp (file_bytes fs (audio_path opts))"
    by auto
  have "\<forall>e \<in> set (sort_key fst stems). NUL \<notin> set (fst e)"
    using st by simp
  from write_stems_Inr [OF s2 this] obtain ss where
    ss: "zf2 = zf1 @ ss" "map filename ss = map fst (sort_key fst stems)"
      "out \<notin> snd ` set stems \<longrightarrow>
         ss = map (\<lambda>e. stored (fst e) (file_bytes fs (snd e))) (sort_key fst stems)"
    by auto
  have m: "zip_write_bytes zf2 ''metadata/manifest.json'' mb =
             zf2 @ [stored ''metadata/manifest.json'' mb]"
    by (rule zip_write_bytes_stored [OF fixed_names_no_NUL(1)])
  from write_optional_Inr [OF s3 fixed_names(2) fixed_names_no_NUL(2)] obtain o3 where
    o3: "zf3 = (zf2 @ [stored ''metadata/manifest.json'' mb]) @ o3"
      "map filename o3 =
         (if given (prompt_path opts) then [''metadata/prompt/prompt.txt''] else [])"
      "prompt_path opts \<noteq> Some out \<longrightarrow>
         o3 = optional_entry fs ''metadata/prompt/prompt.txt'' (prompt_path opts)"
    unfolding m by auto
  from write_optional_Inr [OF s4 fixed_names(3) fixed_names_no_NUL(3)] obtain o4 where
    o4: "zf4 = zf3 @ o4"
      "map filename o4 =
         (if given (negative_prompt_path opts) then [''metadata/prompt/negative_prompt.txt'']
          else [])"
      "negative_prompt_path opts \<noteq> Some out \<longrightarrow>
         o4 = optional_entry fs ''metadata/prompt/negative_prompt.txt''
                (negative_prompt_path opts)"
    by auto
  from write_optional_Inr [OF s5 fixed_names(4) fixed_names_no_NUL(4)] obtain o5 where
    o5: "zf5 = zf4 @ o5"
      "map filename o5 = (if given (lyrics_path opts) then [''metadata/lyrics.txt''] else [])"
      "lyrics_path opts \<noteq> Some out \<longrightarrow>
         o5 = optional_entry fs ''metadata/lyrics.txt'' (lyrics_path opts)"
    by auto
  from write_optional_Inr [OF s6 fixed_names(5) fixed_names_no_NUL(5)] obtain o6 where
    o6: "zf6 = zf5 @ o6"
      "map filename o6 = (if given (persona_path opts) then [''metadata/persona.txt''] else [])"
      "persona_path opts \<noteq> Some out \<longrightarrow>
         o6 = optional_entry fs ''metadata/persona.txt'' (persona_path opts)"
    by auto
  from write_optional_Inr [OF s7 fixed_names(6) fixed_names_no_NUL(6)] obtain o7 where
    o7: "zf7 = zf6 @ o7"
      "map filename o7 =
         (if given (declaration_path opts) then [''metadata/declaration.txt''] else [])"
      "declaration_path opts \<noteq> Some out \<longrightarrow>
         o7 = optional_entry fs ''metadata/declaration.txt'' (declaration_path opts)"
    by auto
  have e8: "zf = zf7 @ [stored ''verification/checksums.sha256'' cb, stored ''README.txt'' rb]"
    unfolding s8
    by (simp only: zip_write_bytes_stored [OF fixed_names_no_NUL(7)]
        zip_write_bytes_stored [OF fixed_names_no_NUL(8)] append_assoc append.simps)
  let ?os = "o3 @ o4 @ o5 @ o6 @ o7"
  have zf: "zf = a # ss @ stored ''metadata/manifest.json'' mb # ?os @
                   [stored ''verification/checksums.sha256'' cb, stored ''README.txt'' rb]"
    unfolding e8 o7(1) o6(1) o5(1) o4(1) o3(1) ss(1) a(1) by simp
  have names: "map filename ?os = optional_names opts"
    unfolding optional_names_def map_append o3(2) o4(2) o5(2) o6(2) o7(2) by (rule refl)
  have layout: "zf = archive_layout fs opts azp stems mb cb rb"
    if apart: "out \<notin> set (audio_path opts # map snd stems @ optional_sources opts)"
  proof -
    from apart have "audio_path opts \<noteq> out" "out \<notin> snd ` set stems"
      "prompt_path opts \<noteq> Some out" "negative_prompt_path opts \<noteq> Some out"
      "lyrics_path opts \<noteq> Some out" "persona_path opts \<noteq> Some out"
      "declaration_path opts \<noteq> Some out"
      by (auto simp: optional_sources_def)
    with a(3) ss(3) o3(3) o4(3) o5(3) o6(3) o7(3) show ?thesis
      unfolding zf archive_layout_def by simp
  qed
  show ?thesis
    using zf a(2) ss(2) names layout by blast
qed

section \<open>The archive of a conversion\<close>


lemma check_inputs_audio:
  "check_inputs fs opts = None \<Longrightarrow> path_exists fs (audio_path opts) \<and> is_file fs (audio_path opts)"
  by (auto simp: check_inputs_def Let_def split: if_splits)

lemma payload_entries_of_files:
  assumes "check_inputs fs opts = None"
  shows "list_all (\<lambda>e. is_file fs (snd e)) (payload_entries_of fs opts)"
proof -
  have "is_file fs (audio_path opts)"
    using check_inputs_audio [OF assms] by simp
  moreover have "list_all (\<lambda>e. is_file fs (snd e)) (stems_files_of fs opts)"
    by (cases "stems_dir opts")
      (auto simp: stems_files_of_def list_all_iff stem_entry_def iter_files_recursive_set)
  ultimately show ?thesis
    by (simp add: payload_entries_of_def)
qed

lemma posix_fs_name:
  assumes "posix_fs fs" "path_exists fs p"
  shows "CHR ''/'' \<notin> set (path_name p)" "NUL \<notin> set (path_name p)"
proof -
  have "list_all file_name (tail p)"
    using assms by (intro posix_fs_member map_of_member) (simp_all add: path_exists_def)
  then have "tail p \<noteq> [] \<Longrightarrow> file_name (last (tail p))"
    by (simp add: list_all_iff)
  then show "CHR ''/'' \<notin> set (path_name p)" "NUL \<notin> set (path_name p)"
    by (auto simp: path_name_def file_name_def)
qed

lemma join_no_NUL:
  "\<forall>c \<in> set cs. NUL \<notin> set c \<Longrightarrow> NUL \<notin> set sep \<Longrightarrow> NUL \<notin> set (join sep cs)"
  by (induction sep cs rule: join.induct) auto

lemma stems_files_of_names:
  assumes "posix_fs fs" "e \<in> set (stems_files_of fs opts)"
  shows "\<exists>rel. rel \<noteq> [] \<and> list_all file_name rel \<and>
           fst e = join ''/'' (''payload'' # ''stems'' # rel)"
proof -
  from assms(2) obtain dir where dir: "stems_dir opts = Some dir"
    by (cases "stems_dir opts") (simp_all add: stems_files_of_def)
  with assms(2) obtain f where
    f: "f \<in> set (iter_files_recursive fs dir)" and e: "e = stem_entry dir f"
    by (auto simp: stems_files_of_def)
  from f have g: "f \<in> set (rglob fs dir)"
    by (simp add: iter_files_recursive_set)
  let ?rel = "drop (length (tail dir)) (tail f)"
  have "?rel \<noteq> []"
    using rglob_member(2) [OF g] by (auto simp: strict_prefix_def prefix_def)
  moreover have "list_all file_name ?rel"
    using posix_fs_member [OF assms(1) rglob_member(3) [OF g]]
    by (auto simp: list_all_iff dest: in_set_dropD)
  ultimately show ?thesis
    unfolding e stem_entry_def by (intro exI [of _ ?rel]) simp
qed



lemma convert_aifm_shape:
  assumes conv: "convert_aifm lib fs now opts = Inr (out, zf)" and fs: "posix_fs fs"
  shows "\<exists>checksums_text readme_text a ss os.
           make_checksums_payload_only lib fs (payload_entries_of fs opts) = Inr checksums_text \<and>
           build_readme lib (build_manifest opts now) = Inr readme_text \<and>
           zf = a # ss @
                  stored ''metadata/manifest.json''
                    (utf8_encode lib (json_dumps lib (JObject (build_manifest opts now)))) #
                  os @
                  [stored ''verification/checksums.sha256'' (utf8_encode lib checksums_text),
                   stored ''README.txt'' (utf8_encode lib readme_text)] \<and>
           filename a = audio_zip_path_of opts \<and>
           map filename ss = map fst (sort_key fst (stems_files_of fs opts)) \<and>
           map filename os = optional_names opts \<and>
           (out \<notin> set (sources_read fs opts) \<longrightarrow>
              zf = archive_layout fs opts (audio_zip_path_of opts) (stems_files_of fs opts)
                     (utf8_encode lib (json_dumps lib (JObject (build_manifest opts now))))
                     (utf8_encode lib checksums_text) (utf8_encode lib readme_text))"
proof -
  from convert_aifm_Inr [OF conv] obtain azp stems checksums_text readme_text where
    chk: "check_inputs fs opts = None" and
    azp: "normalize_zip_path [''payload'', ''audio'', ''main.'' @ audio_ext (audio_path opts)]
            = Inr azp" and
    stems: "collect_stems fs (stems_dir opts) = Inr stems" and
    sums: "make_checksums_payload_only lib fs ((azp, audio_path opts) # stems)
             = Inr checksums_text" and
    readme: "build_readme lib (build_manifest opts now) = Inr readme_text" and
    w: "write_archive lib fs out opts azp stems
          (utf8_encode lib (json_dumps lib (JObject (build_manifest opts now))))
          (utf8_encode lib checksums_text) (utf8_encode lib readme_text) = Inr zf"
    by blast
  note name = posix_fs_name [OF fs conjunct1 [OF check_inputs_audio [OF chk]]]
  have azp_eq: "azp = audio_zip_path_of opts"
    using azp audio_zip_path_eq [OF name(1)] by (simp add: audio_zip_path_of_def)
  have stems_eq: "stems = stems_files_of fs opts"
    using stems collect_stems_entries [OF fs, of "stems_dir opts"]
    by (simp add: stems_files_of_def)
  have "NUL \<notin> set ''payload/audio/main.''"
    by (simp add: NUL_def)
  then have n1: "NUL \<notin> set azp"
    using audio_ext_chars(3) [OF name] by (simp add: azp_eq audio_zip_path_of_def)
  have n2: "\<forall>e \<in> set stems. NUL \<notin> set (fst e)"
  proof
    fix e
    assume "e \<in> set stems"
    then obtain rel where rel: "list_all file_name rel"
      and e: "fst e = join ''/'' (''payload'' # ''stems'' # rel)"
      using stems_files_of_names [OF fs, of e opts] by (auto simp: stems_eq)
    have "\<forall>c \<in> set (''payload'' # ''stems'' # rel). NUL \<notin> set c"
      using rel by (auto simp: list_all_iff file_name_def NUL_def)
    moreover have "NUL \<notin> set ''/''"
      by (simp add: NUL_def)
    ultimately show "NUL \<notin> set (fst e)"
      unfolding e by (rule join_no_NUL)
  qed
  have src: "set (audio_path opts # map snd stems @ optional_sources opts) =
             set (sources_read fs opts)"
    by (simp add: sources_read_def payload_entries_of_def stems_eq)
  from write_archive_shape [OF w n1 n2] sums readme show ?thesis
    unfolding src unfolding azp_eq stems_eq payload_entries_of_def by blast
qed


lemma fixed_names_of_eq:
  "fixed_names_of opts =
     ''metadata/manifest.json'' # optional_names opts @
     [''verification/checksums.sha256'', ''README.txt'']"
  by (simp add: fixed_names_of_def optional_names_def)

lemma convert_aifm_names:
  assumes conv: "convert_aifm lib fs now opts = Inr (out, zf)" and fs: "posix_fs fs"
  shows "namelist zf = audio_zip_path_of opts #
           map fst (sort_key fst (stems_files_of fs opts)) @ fixed_names_of opts"
proof -
  from convert_aifm_shape [OF conv fs] obtain mb cb rb a ss os where
    "zf = a # ss @ stored ''metadata/manifest.json'' mb # os @
            [stored ''verification/checksums.sha256'' cb, stored ''README.txt'' rb]"
    "filename a = audio_zip_path_of opts"
    "map filename ss = map fst (sort_key fst (stems_files_of fs opts))"
    "map filename os = optional_names opts"
    by blast
  then show ?thesis
    by (simp add: namelist_def fixed_names_of_eq)
qed


lemma namelist_optional_entry:
  "map filename (optional_entry fs n po) = (if given po then [n] else [])"
  by (cases po) (simp_all add: optional_entry_def given_def)

lemma namelist_archive_layout:
  "namelist (archive_layout fs opts azp stems mb cb rb) =
     azp # map fst (sort_key fst stems) @ fixed_names_of opts"
  by (simp add: namelist_def archive_layout_def namelist_optional_entry fixed_names_of_def
      comp_def)

lemma fixed_names_of_distinct: "distinct (fixed_names_of opts)"
  by (simp add: fixed_names_of_def)

lemma fixed_names_of_not_payload:
  "n \<in> set (fixed_names_of opts) \<Longrightarrow> take 8 n \<noteq> ''payload/''"
  by (auto simp: fixed_names_of_def split: if_splits)

lemma split_on_join_inj:
  assumes "join [c] xs = join [c] ys" "xs \<noteq> []" "ys \<noteq> []"
    "\<forall>w \<in> set xs. c \<notin> set w" "\<forall>w \<in> set ys. c \<notin> set w"
  shows "xs = ys"
proof -
  have "xs = split_on c (join [c] xs)"
    by (rule split_on_join [OF assms(2,4), symmetric])
  also have "\<dots> = split_on c (join [c] ys)"
    by (simp only: assms(1))
  also have "\<dots> = ys"
    by (rule split_on_join [OF assms(3,5)])
  finally show ?thesis .
qed

lemma stem_entry_inj:
  assumes fs: "posix_fs fs"
    and f: "f \<in> set (rglob fs dir)" and g: "g \<in> set (rglob fs dir)"
    and eq: "fst (stem_entry dir f) = fst (stem_entry dir g)"
  shows "f = g"
proof -
  let ?n = "length (tail dir)"
  have names: "\<forall>w \<in> set (''payload'' # ''stems'' # drop ?n (tail h)). CHR ''/'' \<notin> set w"
    if "h \<in> set (rglob fs dir)" for h
    using posix_fs_member [OF fs rglob_member(3) [OF that]]
    by (auto simp: list_all_iff file_name_def dest: in_set_dropD)
  have "''payload'' # ''stems'' # drop ?n (tail f) = ''payload'' # ''stems'' # drop ?n (tail g)"
    using eq names [OF f] names [OF g] unfolding stem_entry_def fst_conv
    by (intro split_on_join_inj [of "CHR ''/''"]) simp_all
  then have d: "drop ?n (tail f) = drop ?n (tail g)"
    by simp
  have "take ?n (tail f) = tail dir" "take ?n (tail g) = tail dir"
    using rglob_member(2) [OF f] rglob_member(2) [OF g]
    by (auto simp: strict_prefix_def prefix_def)
  then have "tail f = tail g"
    using d by (metis append_take_drop_id)
  moreover have "anchor f = anchor g"
    using rglob_member(1) [OF f] rglob_member(1) [OF g] by simp
  ultimately show ?thesis
    by (simp add: Path.expand)
qed

lemma stems_files_of_distinct:
  assumes "posix_fs fs"
  shows "distinct (map fst (stems_files_of fs opts))"
proof (cases "stems_dir opts")
  case None
  then show ?thesis by (simp add: stems_files_of_def)
next
  case (Some dir)
  have "inj_on (\<lambda>f. fst (stem_entry dir f)) (set (iter_files_recursive fs dir))"
    by (rule inj_onI) (auto simp: iter_files_recursive_set intro: stem_entry_inj [OF assms])
  then have "distinct (map (\<lambda>f. fst (stem_entry dir f)) (iter_files_recursive fs dir))"
    by (simp add: distinct_map distinct_iter_files_recursive)
  then show ?thesis
    by (simp add: stems_files_of_def Some comp_def)
qed

lemma distinct_map_sort_key:
  "distinct (map f xs) \<Longrightarrow> distinct (map f (sort_key g xs))"
  by (simp add: distinct_map)

lemma stems_files_of_prefix:
  assumes "posix_fs fs" "e \<in> set (stems_files_of fs opts)"
  shows "take 14 (fst e) = ''payload/stems/''"
proof -
  from stems_files_of_names [OF assms] obtain rel where "rel \<noteq> []"
    and e: "fst e = join ''/'' (''payload'' # ''stems'' # rel)"
    by blast
  then have "fst e = ''payload/stems/'' @ join ''/'' rel"
    by (simp add: join_Cons)
  then show ?thesis by simp
qed

lemma archive_layout_distinct:
  assumes "posix_fs fs"
  shows "distinct (namelist (archive_layout fs opts (audio_zip_path_of opts)
           (stems_files_of fs opts) mb cb rb))"
proof -
  let ?azp = "audio_zip_path_of opts"
  let ?B = "map fst (sort_key fst (stems_files_of fs opts))"
  let ?C = "fixed_names_of opts"
  have a: "take 14 ?azp = ''payload/audio/''"
    by (simp add: audio_zip_path_of_def)
  have b: "take 14 n = ''payload/stems/''" if "n \<in> set ?B" for n
    using that stems_files_of_prefix [OF assms] by auto
  have c: "take 8 n \<noteq> ''payload/''" if "n \<in> set ?C" for n
    using that by (rule fixed_names_of_not_payload)
  have a8: "take 8 ?azp = ''payload/''"
    by (simp add: audio_zip_path_of_def)
  have b8: "take 8 n = ''payload/''" if "n \<in> set ?B" for n
  proof -
    have "take 8 (take 14 n) = take 8 ''payload/stems/''"
      using b [OF that] by simp
    then show ?thesis by simp
  qed
  have "?azp \<notin> set ?B"
    using a b by force
  moreover have "?azp \<notin> set ?C"
    using a8 c by blast
  moreover have "set ?B \<inter> set ?C = {}"
    using b8 c by blast
  moreover have "distinct ?B"
    by (intro distinct_map_sort_key stems_files_of_distinct assms)
  moreover note fixed_names_of_distinct [of opts]
  ultimately show ?thesis
    unfolding namelist_archive_layout by simp
qed

text \<open>
  C10.  On a file system of resolved POSIX paths, the entries of the archive of a
  successful conversion are, in this order, the audio under \<open>payload/audio/\<close>, the
  stems under \<open>payload/stems/\<close>, the manifest, the optional texts that were given,
  the ledger and the README, and no two of them have the same archive path.
\<close>

theorem convert_aifm_distinct_paths:
  assumes "convert_aifm lib fs now opts = Inr (out, zf)" and "posix_fs fs"
  shows "distinct (namelist zf) \<and>
         namelist zf = audio_zip_path_of opts #
           map fst (sort_key fst (stems_files_of fs opts)) @ fixed_names_of opts"
proof -
  have "namelist zf = audio_zip_path_of opts #
          map fst (sort_key fst (stems_files_of fs opts)) @ fixed_names_of opts"
    using assms by (rule convert_aifm_names)
  then show ?thesis
    using archive_layout_distinct [OF assms(2), of opts] namelist_archive_layout by simp
qed

theorem convert_aifm_distinct_paths_witness:
  "posix_fs example_fs \<and>
   (\<exists>out zf. convert_aifm toy_library example_fs example_now stems_options = Inr (out, zf) \<and>
      distinct (namelist zf) \<and>
      namelist zf =
        [''payload/audio/main.wav'', ''payload/stems/kit/drums.wav'',
         ''payload/stems/vocals.wav'', ''metadata/manifest.json'',
         ''metadata/prompt/prompt.txt'', ''verification/checksums.sha256'', ''README.txt''])"
proof -
  have p: "posix_fs example_fs"
    by code_simp
  have "map_sum id (\<lambda>r. True) (convert_aifm toy_library example_fs example_now stems_options)
          = Inr True"
    by code_simp
  then obtain out zf where
    c: "convert_aifm toy_library example_fs example_now stems_options = Inr (out, zf)"
    by (cases "convert_aifm toy_library example_fs example_now stems_options") auto
  have v: "audio_zip_path_of stems_options #
             map fst (sort_key fst (stems_files_of example_fs stems_options)) @
             fixed_names_of stems_options =
           [''payload/audio/main.wav'', ''payload/stems/kit/drums.wav'',
            ''payload/stems/vocals.wav'', ''metadata/manifest.json'',
            ''metadata/prompt/prompt.txt'', ''verification/checksums.sha256'', ''README.txt'']"
    by code_simp
  show ?thesis
    using convert_aifm_distinct_paths [OF c p] p c v by auto
qed

section \<open>The ledger of a conversion\<close>


lemma hex64_digest:
  assumes "hex64 d"
  shows "d \<noteq> []" "no_space d" "no_linebreak d"
proof -
  from assms show "d \<noteq> []"
    by (auto simp: hex64_def)
  have "\<not> isspace c" if "c \<in> set ''0123456789abcdef''" for c
    using that by (auto simp: isspace_def)
  with assms show "no_space d"
    by (auto simp: hex64_def no_space_def list_all_iff)
  then show "no_linebreak d"
    by (rule no_space_no_linebreak)
qed

lemma concat_records_suffix:
  assumes "rs \<noteq> []"
  shows "suffix [LF] (concat (map (\<lambda>r. r @ [LF]) rs))"
proof -
  from assms obtain rs' r where "rs = rs' @ [r]"
    by (metis rev_exhaust)
  then show ?thesis
    by (simp add: suffix_def)
qed

lemma concat_records_one_newline:
  assumes "rs \<noteq> []" "last rs \<noteq> []" "last (last rs) \<noteq> LF"
  shows "\<not> suffix [LF, LF] (concat (map (\<lambda>r. r @ [LF]) rs))"
proof
  assume s: "suffix [LF, LF] (concat (map (\<lambda>r. r @ [LF]) rs))"
  from assms(1) obtain rs' r where rs: "rs = rs' @ [r]"
    by (metis rev_exhaust)
  with assms(2,3) have r: "r \<noteq> []" "last r \<noteq> LF"
    by simp_all
  from s obtain zs where "concat (map (\<lambda>r. r @ [LF]) rs') @ r @ [LF] = zs @ [LF, LF]"
    by (auto simp: suffix_def rs)
  then have "(concat (map (\<lambda>r. r @ [LF]) rs') @ r) @ [LF] = (zs @ [LF]) @ [LF]"
    by simp
  then have "concat (map (\<lambda>r. r @ [LF]) rs') @ r = zs @ [LF]"
    by (simp only: append_same_eq)
  then have "last (concat (map (\<lambda>r. r @ [LF]) rs') @ r) = last (zs @ [LF])"
    by (rule arg_cong)
  with r show False
    by simp
qed

lemma getinfo_distinct:
  assumes "distinct (map filename zf)" "e \<in> set zf"
  shows "getinfo zf (filename e) = Some e"
proof -
  have "find (\<lambda>x. filename x = filename e) xs = Some e"
    if "distinct (map filename xs)" "e \<in> set xs" for xs
    using that by (induction xs) (auto simp: rev_image_eqI)
  from this [of "rev zf"] assms show ?thesis
    by (simp add: getinfo_def rev_map [symmetric])
qed

lemma zf_read_distinct:
  assumes "distinct (map filename zf)" "e \<in> set zf" "failure e = None"
  shows "zf_read zf (filename e) = Inr (content e)"
  using getinfo_distinct [OF assms(1,2)] assms(3) by (simp add: zf_read_def)

lemma convert_aifm_distinct:
  assumes conv: "convert_aifm lib fs now opts = Inr (out, zf)" and fs: "posix_fs fs"
  shows "distinct (map filename zf)"
proof -
  have "distinct (namelist zf)"
    unfolding convert_aifm_names [OF conv fs]
    using archive_layout_distinct [OF fs] by (simp only: namelist_archive_layout)
  then show ?thesis
    by (simp only: namelist_def)
qed

lemma payload_entries_of_prefix:
  assumes "posix_fs fs" "e \<in> set (payload_entries_of fs opts)"
  shows "prefix ''payload/'' (fst e)"
proof -
  have "take 8 (fst e) = ''payload/''"
  proof (cases "e = (audio_zip_path_of opts, audio_path opts)")
    case True
    then show ?thesis by (simp add: audio_zip_path_of_def)
  next
    case False
    with assms(2) have "e \<in> set (stems_files_of fs opts)"
      by (simp add: payload_entries_of_def)
    from stems_files_of_prefix [OF assms(1) this]
    have "take 8 (take 14 (fst e)) = take 8 ''payload/stems/''"
      by simp
    then show ?thesis by simp
  qed
  then show ?thesis
    by (metis take_is_prefix)
qed

lemma prefix_payload_not_other:
  assumes "prefix ''payload/'' p"
  shows "\<not> prefix ''metadata/'' p" "p \<noteq> ''README.txt''"
  using assms by (auto simp: prefix_def)

lemma convert_aifm_ledger:
  assumes conv: "convert_aifm lib fs now opts = Inr (out, zf)" and fs: "posix_fs fs"
  shows "\<exists>text. make_checksums_payload_only lib fs (payload_entries_of fs opts) = Inr text \<and>
           zf_read zf ''verification/checksums.sha256'' = Inr (utf8_encode lib text)"
proof -
  from convert_aifm_shape [OF assms] obtain checksums_text readme_text mb a ss os where
    sums: "make_checksums_payload_only lib fs (payload_entries_of fs opts) = Inr checksums_text"
    and zf: "zf = a # ss @ stored ''metadata/manifest.json'' mb # os @
               [stored ''verification/checksums.sha256'' (utf8_encode lib checksums_text),
                stored ''README.txt'' (utf8_encode lib readme_text)]"
    by blast
  let ?e = "stored ''verification/checksums.sha256'' (utf8_encode lib checksums_text)"
  have "distinct (map filename zf)"
    by (rule convert_aifm_distinct [OF assms])
  moreover have "?e \<in> set zf"
    unfolding zf by simp
  moreover have "failure ?e = None"
    by simp
  ultimately have "zf_read zf (filename ?e) = Inr (content ?e)"
    by (rule zf_read_distinct)
  then show ?thesis
    using sums by simp
qed

text \<open>
  What the parser makes of the line of a payload entry whose path starts with a
  character that is not whitespace: whitespace at the end of the path is lost.
\<close>

lemma strip_nonspace_hd:
  assumes "p \<noteq> []" "\<not> isspace (hd p)"
  shows "strip p \<noteq> []" "\<not> isspace (hd (strip p))" "\<not> isspace (last (strip p))"
    "\<exists>ws. p = strip p @ ws \<and> (\<forall>c \<in> set ws. isspace c)"
proof -
  let ?r = "dropWhile isspace (rev p)"
  have front: "dropWhile isspace p = p"
    using assms by (cases p) simp_all
  then have s: "strip p = rev ?r"
    by (simp add: strip_def)
  have "hd p \<in> set (rev p)"
    using assms(1) by simp
  with assms(2) have r: "?r \<noteq> []"
    by (auto simp: dropWhile_eq_Nil_conv)
  then show ne: "strip p \<noteq> []"
    by (simp add: s)
  have "\<not> isspace (hd ?r)"
    using r by (rule hd_dropWhile)
  then show "\<not> isspace (last (strip p))"
    using r by (simp add: s last_rev)
  have "p = rev (takeWhile isspace (rev p) @ ?r)"
    by simp
  then have p: "p = strip p @ rev (takeWhile isspace (rev p))"
    by (simp only: rev_append s)
  moreover have "\<forall>c \<in> set (rev (takeWhile isspace (rev p))). isspace c"
    by (auto dest: set_takeWhileD)
  ultimately show "\<exists>ws. p = strip p @ ws \<and> (\<forall>c \<in> set ws. isspace c)"
    by blast
  from p ne have "hd p = hd (strip p)"
    by (metis hd_append2)
  with assms(2) show "\<not> isspace (hd (strip p))"
    by simp
qed

lemma strip_trailing:
  assumes "s \<noteq> []" "\<not> isspace (hd s)" "\<forall>c \<in> set ws. isspace c"
  shows "strip (s @ ws) = strip s"
proof -
  have a: "dropWhile isspace (s @ ws) = s @ ws" and b: "dropWhile isspace s = s"
    using assms(1,2) by (cases s; simp)+
  have "dropWhile isspace (rev ws @ rev s) = dropWhile isspace (rev s)"
    using assms(3) by (intro dropWhile_append2) simp
  then show ?thesis
    by (simp add: strip_def a b)
qed

lemma ledger_line_strip: "strip a = strip b \<Longrightarrow> ledger_line a = ledger_line b"
  by (simp add: ledger_line_def)

lemma ledger_line_payload:
  assumes d: "d \<noteq> []" "no_space d" and p: "p \<noteq> []" "\<not> isspace (hd p)"
  shows "ledger_line (d @ ''  '' @ p) = Some (d, strip p)"
proof -
  note sp = strip_nonspace_hd [OF p]
  from sp(4) obtain ws where ws: "p = strip p @ ws" "\<forall>c \<in> set ws. isspace c"
    by blast
  have hd_d: "\<not> isspace (hd d)"
    using d by (auto simp: no_space_def list_all_iff)
  have "d @ ''  '' @ p = (d @ ''  '' @ strip p) @ ws"
    using ws(1) by (metis append_assoc)
  moreover have "strip ((d @ ''  '' @ strip p) @ ws) = strip (d @ ''  '' @ strip p)"
    using d(1) hd_d ws(2) by (intro strip_trailing) simp_all
  ultimately have "strip (d @ ''  '' @ p) = strip (d @ ''  '' @ strip p)"
    by simp
  then have "ledger_line (d @ ''  '' @ p) = ledger_line (d @ ''  '' @ strip p)"
    by (rule ledger_line_strip)
  also have "\<dots> = Some (d, strip p)"
    using d sp(1,2,3) by (intro ledger_line_record)
  finally show ?thesis .
qed

lemma prefix_strip:
  assumes "prefix a p" "a \<noteq> []" "no_space a"
  shows "prefix a (strip p)"
proof -
  from assms(1) obtain r where r: "p = a @ r"
    by (auto simp: prefix_def)
  have "hd a \<in> set a"
    using assms(2) by simp
  then have "\<not> isspace (hd a)"
    using assms(3) by (auto simp: no_space_def list_all_iff)
  then have p: "p \<noteq> []" "\<not> isspace (hd p)"
    using assms(2) by (simp_all add: r)
  from strip_nonspace_hd(4) [OF p] obtain ws where
    ws: "p = strip p @ ws" "\<forall>c \<in> set ws. isspace c"
    by blast
  from assms(1) have "prefix a (strip p @ ws)"
    using ws(1) by metis
  then consider "prefix a (strip p)" | us where "a = strip p @ us" "prefix us ws"
    by (auto simp: prefix_append)
  then show ?thesis
  proof cases
    case 1
    then show ?thesis .
  next
    case 2
    have "us = []"
    proof (rule ccontr)
      assume "us \<noteq> []"
      then have "hd us \<in> set us"
        by simp
      then have "hd us \<in> set a" "hd us \<in> set ws"
        using 2 set_mono_prefix [of us ws] by auto
      with ws(2) assms(3) show False
        by (auto simp: no_space_def list_all_iff)
    qed
    with 2 show ?thesis by simp
  qed
qed

lemma parse_payload_ledger:
  assumes files: "list_all (\<lambda>e. is_file fs (snd e)) entries"
    and paths: "list_all (\<lambda>e. no_linebreak (fst e) \<and> fst e \<noteq> [] \<and> \<not> isspace (hd (fst e)))
                  entries"
    and hex: "\<forall>b. hex64 (sha256_hex lib b)"
  shows "make_checksums_payload_only lib fs entries =
           Inr (join [LF] (map (ledger_record lib fs) (sort_key fst entries)) @ [LF]) \<and>
         parse_sha256sum
           (join [LF] (map (ledger_record lib fs) (sort_key fst entries)) @ [LF]) =
           map (parsed_entry lib fs) (sort_key fst entries)"
proof -
  let ?sorted = "sort_key fst entries"
  let ?records = "map (ledger_record lib fs) ?sorted"
  let ?text = "join [LF] ?records @ [LF]"
  have rendered: "make_checksums_payload_only lib fs entries = Inr ?text"
    by (rule make_checksums_text [OF files])
  have each: "no_linebreak (fst e) \<and> fst e \<noteq> [] \<and> \<not> isspace (hd (fst e))"
    if "e \<in> set ?sorted" for e
    using that paths by (simp add: list_all_iff)
  have "parse_sha256sum ?text = map (parsed_entry lib fs) ?sorted"
  proof (cases "entries = []")
    case True
    have "parse_sha256sum [LF] = []"
      by code_simp
    with True show ?thesis by simp
  next
    case False
    then have "length ?records \<noteq> 0"
      by simp
    then have "?records \<noteq> []"
      by (simp only: length_0_conv not_False_eq_True)
    then have "?text = concat (map (\<lambda>r. r @ [LF]) ?records)"
      by (rule join_lines)
    moreover have "list_all no_linebreak ?records"
      using each hex hex64_digest(2)
      by (auto simp: list_all_iff intro!: ledger_record_no_linebreak)
    ultimately have "splitlines ?text = ?records"
      by (simp only: splitlines_records)
    moreover have "List.map_filter ledger_line ?records = map (parsed_entry lib fs) ?sorted"
    proof (rule map_filter_map_Some, rule ballI)
      fix e
      assume "e \<in> set ?sorted"
      from each [OF this] hex hex64_digest(1,2)
      show "ledger_line (ledger_record lib fs e) = Some (parsed_entry lib fs e)"
        unfolding ledger_record_def parsed_entry_def
        by (intro ledger_line_payload) simp_all
    qed
    ultimately show ?thesis
      by (simp only: parse_sha256sum_map_filter)
  qed
  with rendered show ?thesis by simp
qed

lemma payload_entries_of_start:
  assumes "posix_fs fs" "e \<in> set (payload_entries_of fs opts)"
  shows "fst e \<noteq> []" "\<not> isspace (hd (fst e))"
proof -
  from payload_entries_of_prefix [OF assms] obtain r where "fst e = ''payload/'' @ r"
    by (auto simp: prefix_def)
  then show "fst e \<noteq> []" "\<not> isspace (hd (fst e))"
    by (simp_all add: isspace_def)
qed

lemma payload_path_strip:
  assumes "prefix ''payload/'' p"
  shows "payload_path (strip p)"
proof -
  have "no_space ''payload/''"
    by (simp add: no_space_def isspace_def)
  with assms have "prefix ''payload/'' (strip p)"
    by (intro prefix_strip) simp_all
  then show ?thesis
    using prefix_payload_not_other by (simp add: payload_path_def)
qed

lemma convert_aifm_ledger_entries:
  assumes conv: "convert_aifm lib fs now opts = Inr (out, zf)" and fs: "posix_fs fs"
    and hex: "\<forall>b. hex64 (sha256_hex lib b)"
    and codec: "\<forall>s. utf8_decode lib (utf8_encode lib s) = s"
    and nl: "list_all (\<lambda>e. no_linebreak (fst e)) (payload_entries_of fs opts)"
  shows "\<exists>raw. zf_read zf ''verification/checksums.sha256'' = Inr raw \<and>
           make_checksums_payload_only lib fs (payload_entries_of fs opts) =
             Inr (utf8_decode lib raw) \<and>
           parse_sha256sum (utf8_decode lib raw) =
             map (parsed_entry lib fs) (sort_key fst (payload_entries_of fs opts)) \<and>
           list_all (\<lambda>entry. payload_path (snd entry)) (parse_sha256sum (utf8_decode lib raw))"
proof -
  let ?entries = "payload_entries_of fs opts"
  from convert_aifm_ledger [OF conv fs] obtain rendered where
    sums: "make_checksums_payload_only lib fs ?entries = Inr rendered" and
    read: "zf_read zf ''verification/checksums.sha256'' = Inr (utf8_encode lib rendered)"
    by blast
  have chk: "check_inputs fs opts = None"
    using convert_aifm_Inr [OF conv] by blast
  have files: "list_all (\<lambda>e. is_file fs (snd e)) ?entries"
    using chk by (rule payload_entries_of_files)
  have paths: "list_all (\<lambda>e. no_linebreak (fst e) \<and> fst e \<noteq> [] \<and> \<not> isspace (hd (fst e)))
                 ?entries"
    using nl payload_entries_of_start [OF fs] by (auto simp: list_all_iff)
  from parse_payload_ledger [OF files paths hex] sums have
    parsed: "parse_sha256sum rendered = map (parsed_entry lib fs) (sort_key fst ?entries)"
    by simp
  have "payload_path (snd (parsed_entry lib fs e))" if "e \<in> set ?entries" for e
    using payload_entries_of_prefix [OF fs that]
    by (simp add: parsed_entry_def payload_path_strip)
  then have "list_all (\<lambda>entry. payload_path (snd entry)) (parse_sha256sum rendered)"
    unfolding parsed by (simp add: list_all_iff)
  with sums read parsed codec show ?thesis
    by (intro exI [of _ "utf8_encode lib rendered"]) simp
qed

lemma hex_digit_member: "hex_digit n \<in> set ''0123456789abcdef''"
proof -
  have "n mod 16 < length ''0123456789abcdef''"
    by simp
  then show ?thesis
    unfolding hex_digit_def by (rule nth_mem)
qed

lemma toy_digest_hex64: "hex64 (toy_digest b)"
proof -
  have "list_all (\<lambda>c. c \<in> set ''0123456789abcdef'') (replicate 62 (CHR ''0''))"
    by (simp add: list_all_iff)
  then show ?thesis
    using hex_digit_member [of "length b div 16"] hex_digit_member [of "length b"]
    by (simp add: hex64_def toy_digest_def del: set_simps list.set)
qed

text \<open>
  C5, as the code has it.  For a non-empty list of payload entries whose files can be
  read, and a digest function that prints 64 lowercase hexadecimal digits, the rendered
  ledger is the concatenation, in ascending order of archive path, of one record per
  entry, each record being the digest, two spaces, the path and a line feed; so it ends
  with a line feed.  When no path holds a line boundary, the lines of the text are
  exactly these records and the text ends with exactly one line feed.  The ledger of a
  successful conversion (on a file system of resolved POSIX paths) is rendered from
  payload entries whose paths all start with \<open>payload/\<close>.  When none of these paths
  holds a line boundary (and the codec decodes what it encoded), the entries that a
  reader parses from the ledger in the archive are, in ascending order of path, one per
  payload entry, with its digest and its path less the whitespace at its end, and every
  parsed path starts with \<open>payload/\<close>: none starts with \<open>metadata/\<close> and none is
  \<open>README.txt\<close>.
\<close>

theorem make_checksums_payload_only_ledger:
  "(payload_entries \<noteq> [] \<and> list_all (\<lambda>e. is_file fs (snd e)) payload_entries \<and>
    (\<forall>b. hex64 (sha256_hex lib b)) \<longrightarrow>
      (\<exists>text. make_checksums_payload_only lib fs payload_entries = Inr text \<and>
         text = concat (map (\<lambda>e. ledger_record lib fs e @ [LF])
                  (sort_key fst payload_entries)) \<and>
         sorted (map fst (sort_key fst payload_entries)) \<and>
         (\<forall>e \<in> set payload_entries.
            \<exists>d. hex64 d \<and> ledger_record lib fs e = d @ ''  '' @ fst e) \<and>
         suffix [LF] text \<and>
         (list_all (\<lambda>e. no_linebreak (fst e)) payload_entries \<longrightarrow>
            splitlines text = map (ledger_record lib fs) (sort_key fst payload_entries) \<and>
            \<not> suffix [LF, LF] text))) \<and>
   (convert_aifm lib fs now opts = Inr (out, zf) \<and> posix_fs fs \<longrightarrow>
      (\<exists>text. make_checksums_payload_only lib fs (payload_entries_of fs opts) = Inr text \<and>
         zf_read zf ''verification/checksums.sha256'' = Inr (utf8_encode lib text)) \<and>
      (\<forall>e \<in> set (payload_entries_of fs opts). prefix ''payload/'' (fst e))) \<and>
   (convert_aifm lib fs now opts = Inr (out, zf) \<and> posix_fs fs \<and>
    (\<forall>b. hex64 (sha256_hex lib b)) \<and> (\<forall>s. utf8_decode lib (utf8_encode lib s) = s) \<and>
    list_all (\<lambda>e. no_linebreak (fst e)) (payload_entries_of fs opts) \<longrightarrow>
      (\<exists>raw. zf_read zf ''verification/checksums.sha256'' = Inr raw \<and>
         make_checksums_payload_only lib fs (payload_entries_of fs opts) =
           Inr (utf8_decode lib raw) \<and>
         parse_sha256sum (utf8_decode lib raw) =
           map (parsed_entry lib fs) (sort_key fst (payload_entries_of fs opts)) \<and>
         list_all (\<lambda>entry. payload_path (snd entry))
           (parse_sha256sum (utf8_decode lib raw))))"
proof (intro conjI impI)
  assume a: "payload_entries \<noteq> [] \<and> list_all (\<lambda>e. is_file fs (snd e)) payload_entries \<and>
             (\<forall>b. hex64 (sha256_hex lib b))"
  let ?sorted = "sort_key fst payload_entries"
  let ?records = "map (ledger_record lib fs) ?sorted"
  let ?text = "concat (map (\<lambda>r. r @ [LF]) ?records)"
  have "length ?records \<noteq> 0"
    using a by simp
  then have ne: "?records \<noteq> []"
    by (simp only: length_0_conv not_False_eq_True)
  have rendered: "make_checksums_payload_only lib fs payload_entries = Inr ?text"
    using a make_checksums_text [of fs payload_entries lib] join_lines [OF ne] by simp
  have shape: "\<forall>e \<in> set payload_entries.
                 \<exists>d. hex64 d \<and> ledger_record lib fs e = d @ ''  '' @ fst e"
    using a by (auto simp: ledger_record_def)
  have lines: "splitlines ?text = ?records \<and> \<not> suffix [LF, LF] ?text"
    if nl: "list_all (\<lambda>e. no_linebreak (fst e)) payload_entries"
  proof
    have each: "no_linebreak (ledger_record lib fs e)" if "e \<in> set ?sorted" for e
      using that nl a hex64_digest(2)
      by (intro ledger_record_no_linebreak) (auto simp: list_all_iff)
    then have "list_all no_linebreak ?records"
      by (simp add: list_all_iff)
    then show "splitlines ?text = ?records"
      by (rule splitlines_records)
    have "last ?records \<in> set ?records"
      using ne by (rule last_in_set)
    then obtain e where e: "e \<in> set ?sorted" "last ?records = ledger_record lib fs e"
      by auto
    have "last ?records \<noteq> []"
      by (simp add: e ledger_record_def)
    moreover have "last (last ?records) \<noteq> LF"
    proof
      assume "last (last ?records) = LF"
      with \<open>last ?records \<noteq> []\<close> have "LF \<in> set (last ?records)"
        by (metis last_in_set)
      moreover have "linebreak LF"
        by (simp add: linebreak_def LF_def)
      ultimately show False
        using each [OF e(1)] by (auto simp: e(2) no_linebreak_def list_all_iff)
    qed
    ultimately show "\<not> suffix [LF, LF] ?text"
      using ne by (intro concat_records_one_newline) simp_all
  qed
  show "\<exists>text. make_checksums_payload_only lib fs payload_entries = Inr text \<and>
         text = concat (map (\<lambda>e. ledger_record lib fs e @ [LF])
                  (sort_key fst payload_entries)) \<and>
         sorted (map fst (sort_key fst payload_entries)) \<and>
         (\<forall>e \<in> set payload_entries.
            \<exists>d. hex64 d \<and> ledger_record lib fs e = d @ ''  '' @ fst e) \<and>
         suffix [LF] text \<and>
         (list_all (\<lambda>e. no_linebreak (fst e)) payload_entries \<longrightarrow>
            splitlines text = map (ledger_record lib fs) (sort_key fst payload_entries) \<and>
            \<not> suffix [LF, LF] text)"
    using rendered shape lines concat_records_suffix [OF ne]
    by (intro exI [of _ ?text]) (simp add: comp_def)
next
  assume "convert_aifm lib fs now opts = Inr (out, zf) \<and> posix_fs fs"
  then show "\<exists>text. make_checksums_payload_only lib fs (payload_entries_of fs opts) = Inr text \<and>
         zf_read zf ''verification/checksums.sha256'' = Inr (utf8_encode lib text)"
    using convert_aifm_ledger by blast
next
  assume "convert_aifm lib fs now opts = Inr (out, zf) \<and> posix_fs fs"
  then show "\<forall>e \<in> set (payload_entries_of fs opts). prefix ''payload/'' (fst e)"
    using payload_entries_of_prefix by blast
next
  assume "convert_aifm lib fs now opts = Inr (out, zf) \<and> posix_fs fs \<and>
    (\<forall>b. hex64 (sha256_hex lib b)) \<and> (\<forall>s. utf8_decode lib (utf8_encode lib s) = s) \<and>
    list_all (\<lambda>e. no_linebreak (fst e)) (payload_entries_of fs opts)"
  then show "\<exists>raw. zf_read zf ''verification/checksums.sha256'' = Inr raw \<and>
         make_checksums_payload_only lib fs (payload_entries_of fs opts) =
           Inr (utf8_decode lib raw) \<and>
         parse_sha256sum (utf8_decode lib raw) =
           map (parsed_entry lib fs) (sort_key fst (payload_entries_of fs opts)) \<and>
         list_all (\<lambda>entry. payload_path (snd entry))
           (parse_sha256sum (utf8_decode lib raw))"
    using convert_aifm_ledger_entries [of lib fs now opts out zf] by blast
qed

theorem make_checksums_payload_only_ledger_witness:
  "example_entries \<noteq> [] \<and> list_all (\<lambda>e. is_file example_fs (snd e)) example_entries \<and>
   (\<forall>b. hex64 (sha256_hex toy_library b)) \<and>
   (\<forall>s. utf8_decode toy_library (utf8_encode toy_library s) = s) \<and>
   list_all (\<lambda>e. no_linebreak (fst e)) example_entries \<and>
   posix_fs example_fs \<and>
   list_all (\<lambda>e. no_linebreak (fst e)) (payload_entries_of example_fs stems_options) \<and>
   (\<exists>text. make_checksums_payload_only toy_library example_fs example_entries = Inr text \<and>
      splitlines text =
        [toy_digest ''abc'' @ ''  payload/audio/main.wav'',
         toy_digest ''vv'' @ ''  payload/stems/vocals.wav''] \<and>
      suffix [LF] text \<and> \<not> suffix [LF, LF] text) \<and>
   (\<exists>out zf raw.
      convert_aifm toy_library example_fs example_now stems_options = Inr (out, zf) \<and>
      zf_read zf ''verification/checksums.sha256'' = Inr raw \<and>
      parse_sha256sum (utf8_decode toy_library raw) =
        [(toy_digest ''abc'', ''payload/audio/main.wav''),
         (toy_digest ''dddd'', ''payload/stems/kit/drums.wav''),
         (toy_digest ''vv'', ''payload/stems/vocals.wav'')] \<and>
      list_all (\<lambda>entry. payload_path (snd entry))
        (parse_sha256sum (utf8_decode toy_library raw)))"
proof -
  have h1: "example_entries \<noteq> []"
    and h2: "list_all (\<lambda>e. is_file example_fs (snd e)) example_entries"
    and h4: "list_all (\<lambda>e. no_linebreak (fst e)) example_entries"
    and h5: "posix_fs example_fs"
    and h6: "list_all (\<lambda>e. no_linebreak (fst e)) (payload_entries_of example_fs stems_options)"
    by code_simp+
  have "hex64 (toy_digest b)" for b
    by (rule toy_digest_hex64)
  then have h3: "\<forall>b. hex64 (sha256_hex toy_library b)"
    by (simp add: toy_library_def)
  have h7: "\<forall>s. utf8_decode toy_library (utf8_encode toy_library s) = s"
    by (simp add: toy_library_def)
  have v: "map (ledger_record toy_library example_fs) (sort_key fst example_entries) =
             [toy_digest ''abc'' @ ''  payload/audio/main.wav'',
              toy_digest ''vv'' @ ''  payload/stems/vocals.wav'']"
    by code_simp
  have v': "map (parsed_entry toy_library example_fs)
              (sort_key fst (payload_entries_of example_fs stems_options)) =
            [(toy_digest ''abc'', ''payload/audio/main.wav''),
             (toy_digest ''dddd'', ''payload/stems/kit/drums.wav''),
             (toy_digest ''vv'', ''payload/stems/vocals.wav'')]"
    by code_simp
  have "map_sum id (\<lambda>r. True) (convert_aifm toy_library example_fs example_now stems_options)
          = Inr True"
    by code_simp
  then obtain out zf where
    c: "convert_aifm toy_library example_fs example_now stems_options = Inr (out, zf)"
    by (cases "convert_aifm toy_library example_fs example_now stems_options") auto
  note inst = make_checksums_payload_only_ledger
    [of example_entries example_fs toy_library example_now stems_options out zf]
  from inst h1 h2 h3 h4 v have
    "\<exists>text. make_checksums_payload_only toy_library example_fs example_entries = Inr text \<and>
      splitlines text =
        [toy_digest ''abc'' @ ''  payload/audio/main.wav'',
         toy_digest ''vv'' @ ''  payload/stems/vocals.wav''] \<and>
      suffix [LF] text \<and> \<not> suffix [LF, LF] text"
    by auto
  moreover from inst c h3 h5 h6 h7 have
    "\<exists>raw. zf_read zf ''verification/checksums.sha256'' = Inr raw \<and>
       parse_sha256sum (utf8_decode toy_library raw) =
         map (parsed_entry toy_library example_fs)
           (sort_key fst (payload_entries_of example_fs stems_options)) \<and>
       list_all (\<lambda>entry. payload_path (snd entry))
         (parse_sha256sum (utf8_decode toy_library raw))"
    by blast
  ultimately show ?thesis
    using h1 h2 h3 h4 h5 h6 h7 c unfolding v' by blast
qed

text \<open>
  C5 as the specification words it fails.  A payload path that ends with a line feed
  gives a ledger that ends with two; an audio file whose extension ends with a line feed
  has such a path, and the conversion writes that ledger.  And the ledger of a
  conversion can hold an entry for \<open>README.txt\<close>: a stem whose name holds a line feed
  is written as one line and read as two, and the second line is parsed as an entry
  of its own.
\<close>

theorem ledger_two_newlines_counterexample:
  "make_checksums_payload_only toy_library example_fs
     [(''payload/audio/main.wav'' @ [LF], Path ''/'' [''in'', ''song.WAV''])] =
     Inr (toy_digest ''abc'' @ ''  payload/audio/main.wav'' @ [LF, LF]) \<and>
   zf_read (archive_of (convert_aifm toy_library newline_fs example_now newline_options))
     ''verification/checksums.sha256'' =
     Inr (toy_digest ''abc'' @ ''  payload/audio/main.wav'' @ [LF, LF]) \<and>
   posix_fs two_line_fs \<and>
   zf_read (archive_of (convert_aifm toy_library two_line_fs example_now two_line_options))
     ''verification/checksums.sha256'' =
     Inr (toy_digest ''abc'' @ ''  payload/audio/main.wav'' @ [LF] @
          toy_digest ''vv'' @ ''  payload/stems/y'' @ [LF] @ ''h  README.txt'' @ [LF]) \<and>
   parse_sha256sum
     (toy_digest ''abc'' @ ''  payload/audio/main.wav'' @ [LF] @
      toy_digest ''vv'' @ ''  payload/stems/y'' @ [LF] @ ''h  README.txt'' @ [LF]) =
     [(toy_digest ''abc'', ''payload/audio/main.wav''),
      (toy_digest ''vv'', ''payload/stems/y''),
      (''h'', ''README.txt'')]"
  by code_simp

section \<open>Two conversions at different times\<close>


































text \<open>
  When the archive is written over one of its sources, what is copied from that source
  is what the archive held by then.  With the output at the path of the prompt, the
  prompt entry holds the audio and the manifest as written so far, and so it differs
  between two clock readings as well.
\<close>

lemma output_over_prompt_example:
  "output_path (out_path overwrite_options) = Inr (Path ''/'' [''in'', ''p.aifm'']) \<and>
   prompt_path overwrite_options = Some (Path ''/'' [''in'', ''p.aifm'']) \<and>
   \<not> output_apart overwrite_fs overwrite_options \<and>
   zf_read (archive_of (convert_aifm toy_library overwrite_fs example_now overwrite_options))
     ''metadata/prompt/prompt.txt'' =
     Inr (partial_archive toy_library
            [stored ''payload/audio/main.wav'' ''abc'',
             stored ''metadata/manifest.json''
               (toy_dumps (JObject (build_manifest overwrite_options example_now)))]) \<and>
   zf_read (archive_of (convert_aifm toy_library overwrite_fs example_now overwrite_options))
     ''metadata/prompt/prompt.txt'' \<noteq>
   zf_read (archive_of (convert_aifm toy_library overwrite_fs example_later overwrite_options))
     ''metadata/prompt/prompt.txt''"
  by code_simp

section \<open>Writing, then verifying\<close>














end
